theory Spec2Isabelle
  imports Complex_Main "HOL-Library.Word"
begin

unbundle bit_operations_syntax

section \<open>The host objects: ArrayBuffer and DataView\<close>

text \<open>
  \<^verbatim>\<open>serialrw.js\<close> holds two classes, \<^verbatim>\<open>SerialReader\<close> and \<^verbatim>\<open>SerialWriter\<close>, over
  the ArrayBuffer and DataView objects of the JavaScript host. An ArrayBuffer is an
  object with identity: the reader hands out the very buffer it was built over, the writer
  replaces its buffer when it grows, and \<^verbatim>\<open>slice\<close> makes a new one. The store below is
  the list of the ArrayBuffers allocated so far, an address is an index into it, and an
  allocation appends. A DataView made by \<^verbatim>\<open>new DataView(buffer)\<close> covers the whole
  buffer, so it is modelled by the address of its buffer.

  JavaScript numbers that hold integers are modelled as \<open>int\<close> (the cursor of the reader,
  which can become negative) or \<open>nat\<close> (the cursor of the writer, which only has
  non-negative amounts added); the 32-bit conversions of \<^verbatim>\<open><<\<close>, \<^verbatim>\<open>>>>\<close>, \<^verbatim>\<open>|\<close> and
  \<^verbatim>\<open>&\<close> are written out with \<open>32 word\<close>. The double \<^verbatim>\<open>-0\<close> is the integer 0.
  A string is the list of its UTF-16 code units. Running out of memory is not modelled.
\<close>

type_synonym byte = "8 word"
type_synonym addr = nat
type_synonym heap = "byte list list"

type_synonym js_string = "nat list"

datatype error = RangeError | TypeError

text \<open>\<^verbatim>\<open>new ArrayBuffer(n)\<close>: a fresh buffer of n zero bytes.\<close>

definition new_ArrayBuffer :: "nat \<Rightarrow> heap \<Rightarrow> addr \<times> heap" where
  "new_ArrayBuffer n h = (length h, h @ [replicate n 0])"

definition byteLength :: "heap \<Rightarrow> addr \<Rightarrow> nat" where
  "byteLength h a = length (h ! a)"

text \<open>
  \<^verbatim>\<open>buffer.slice(begin, end)\<close>: a negative index counts from the end, both indices are
  clamped to the buffer, and the result is a new buffer holding a copy.
\<close>

definition clamp_index :: "nat \<Rightarrow> int \<Rightarrow> nat" where
  "clamp_index len i = (if i < 0 then nat (max (int len + i) 0) else nat (min i (int len)))"

definition ab_slice :: "heap \<Rightarrow> addr \<Rightarrow> int \<Rightarrow> int \<Rightarrow> addr \<times> heap" where
  "ab_slice h a begin end =
     (let len = byteLength h a;
          first = clamp_index len begin;
          final = clamp_index len end
      in (length h, h @ [take (final - first) (drop first (h ! a))]))"

text \<open>
  The accessors of a DataView raise RangeError when the index is negative or the
  element does not fit in the view; multi-byte elements are big-endian (the source
  never passes the little-endian flag).
\<close>

definition dv_bytes :: "heap \<Rightarrow> addr \<Rightarrow> int \<Rightarrow> nat \<Rightarrow> error + byte list" where
  "dv_bytes h a i w =
     (if 0 \<le> i \<and> i + int w \<le> int (byteLength h a)
      then Inr (take w (drop (nat i) (h ! a)))
      else Inl RangeError)"

definition getInt8 :: "heap \<Rightarrow> addr \<Rightarrow> int \<Rightarrow> error + int" where
  "getInt8 h a i = (case dv_bytes h a i 1 of Inl e \<Rightarrow> Inl e
                    | Inr bs \<Rightarrow> Inr (sint (word_rcat bs :: 8 word)))"

definition getInt16 :: "heap \<Rightarrow> addr \<Rightarrow> int \<Rightarrow> error + int" where
  "getInt16 h a i = (case dv_bytes h a i 2 of Inl e \<Rightarrow> Inl e
                     | Inr bs \<Rightarrow> Inr (sint (word_rcat bs :: 16 word)))"

definition getInt32 :: "heap \<Rightarrow> addr \<Rightarrow> int \<Rightarrow> error + int" where
  "getInt32 h a i = (case dv_bytes h a i 4 of Inl e \<Rightarrow> Inl e
                     | Inr bs \<Rightarrow> Inr (sint (word_rcat bs :: 32 word)))"

definition getUint8 :: "heap \<Rightarrow> addr \<Rightarrow> int \<Rightarrow> error + int" where
  "getUint8 h a i = (case dv_bytes h a i 1 of Inl e \<Rightarrow> Inl e
                     | Inr bs \<Rightarrow> Inr (uint (word_rcat bs :: 8 word)))"

definition getUint16 :: "heap \<Rightarrow> addr \<Rightarrow> int \<Rightarrow> error + int" where
  "getUint16 h a i = (case dv_bytes h a i 2 of Inl e \<Rightarrow> Inl e
                      | Inr bs \<Rightarrow> Inr (uint (word_rcat bs :: 16 word)))"

definition getUint32 :: "heap \<Rightarrow> addr \<Rightarrow> int \<Rightarrow> error + int" where
  "getUint32 h a i = (case dv_bytes h a i 4 of Inl e \<Rightarrow> Inl e
                      | Inr bs \<Rightarrow> Inr (uint (word_rcat bs :: 32 word)))"

text \<open>
  A float is read as its IEEE-754 bit pattern: which double the pattern denotes plays no
  part in the cursor or in the bounds.
\<close>

definition getFloat32 :: "heap \<Rightarrow> addr \<Rightarrow> int \<Rightarrow> error + 32 word" where
  "getFloat32 h a i = (case dv_bytes h a i 4 of Inl e \<Rightarrow> Inl e
                       | Inr bs \<Rightarrow> Inr (word_rcat bs))"

definition getFloat64 :: "heap \<Rightarrow> addr \<Rightarrow> int \<Rightarrow> error + 64 word" where
  "getFloat64 h a i = (case dv_bytes h a i 8 of Inl e \<Rightarrow> Inl e
                       | Inr bs \<Rightarrow> Inr (word_rcat bs))"

text \<open>
  The setters: the same bounds check, then the element's bytes replace those at the
  index. The number is reduced modulo the element's width, as ToInt8 ... ToUint32 do.
\<close>

definition be_bytes :: "nat \<Rightarrow> 'a::len word \<Rightarrow> byte list" where
  "be_bytes w x = map (\<lambda>k. ucast (drop_bit (8 * k) x)) (rev [0..<w])"

definition dv_store :: "heap \<Rightarrow> addr \<Rightarrow> nat \<Rightarrow> byte list \<Rightarrow> error + heap" where
  "dv_store h a i bs =
     (if i + length bs \<le> byteLength h a
      then Inr (h[a := take i (h ! a) @ bs @ drop (i + length bs) (h ! a)])
      else Inl RangeError)"

definition setInt8 :: "heap \<Rightarrow> addr \<Rightarrow> nat \<Rightarrow> int \<Rightarrow> error + heap" where
  "setInt8 h a i n = dv_store h a i [word_of_int n]"

definition setUint8 :: "heap \<Rightarrow> addr \<Rightarrow> nat \<Rightarrow> int \<Rightarrow> error + heap" where
  "setUint8 h a i n = dv_store h a i [word_of_int n]"

definition setInt16 :: "heap \<Rightarrow> addr \<Rightarrow> nat \<Rightarrow> int \<Rightarrow> error + heap" where
  "setInt16 h a i n = dv_store h a i (be_bytes 2 (word_of_int n :: 16 word))"

definition setUint16 :: "heap \<Rightarrow> addr \<Rightarrow> nat \<Rightarrow> int \<Rightarrow> error + heap" where
  "setUint16 h a i n = dv_store h a i (be_bytes 2 (word_of_int n :: 16 word))"

definition setInt32 :: "heap \<Rightarrow> addr \<Rightarrow> nat \<Rightarrow> int \<Rightarrow> error + heap" where
  "setInt32 h a i n = dv_store h a i (be_bytes 4 (word_of_int n :: 32 word))"

definition setUint32 :: "heap \<Rightarrow> addr \<Rightarrow> nat \<Rightarrow> int \<Rightarrow> error + heap" where
  "setUint32 h a i n = dv_store h a i (be_bytes 4 (word_of_int n :: 32 word))"

definition setFloat32 :: "heap \<Rightarrow> addr \<Rightarrow> nat \<Rightarrow> 32 word \<Rightarrow> error + heap" where
  "setFloat32 h a i bits = dv_store h a i (be_bytes 4 bits)"

definition setFloat64 :: "heap \<Rightarrow> addr \<Rightarrow> nat \<Rightarrow> 64 word \<Rightarrow> error + heap" where
  "setFloat64 h a i bits = dv_store h a i (be_bytes 8 bits)"


section \<open>SerialReader\<close>

record SerialReader =
  rdv :: addr
  rpos :: int

text \<open>\<^verbatim>\<open>constructor(buffer, pos)\<close>: \<^verbatim>\<open>pos || 0\<close> is 0 when pos is left out.\<close>

definition SerialReader_new :: "addr \<Rightarrow> int option \<Rightarrow> SerialReader" where
  "SerialReader_new buffer pos =
     \<lparr>rdv = buffer, rpos = (case pos of None \<Rightarrow> 0 | Some p \<Rightarrow> p)\<rparr>"

definition rdelayedMove :: "int \<Rightarrow> SerialReader \<Rightarrow> int \<times> SerialReader" where
  "rdelayedMove move r = (rpos r, r\<lparr>rpos := rpos r + move\<rparr>)"

definition rgetBuffer :: "SerialReader \<Rightarrow> addr" where
  "rgetBuffer r = rdv r"

text \<open>
  In \<^verbatim>\<open>this.dv.getInt8(this.delayedMove(1))\<close> JavaScript evaluates \<^verbatim>\<open>this.dv\<close> and
  looks the accessor up first, then evaluates the argument, then calls: the cursor has
  moved when the accessor raises.
\<close>

definition ri8 :: "heap \<Rightarrow> SerialReader \<Rightarrow> (error + int) \<times> SerialReader" where
  "ri8 h r = (let (saved, r') = rdelayedMove 1 r in (getInt8 h (rdv r) saved, r'))"

definition ri16 :: "heap \<Rightarrow> SerialReader \<Rightarrow> (error + int) \<times> SerialReader" where
  "ri16 h r = (let (saved, r') = rdelayedMove 2 r in (getInt16 h (rdv r) saved, r'))"

definition ri32 :: "heap \<Rightarrow> SerialReader \<Rightarrow> (error + int) \<times> SerialReader" where
  "ri32 h r = (let (saved, r') = rdelayedMove 4 r in (getInt32 h (rdv r) saved, r'))"

text \<open>
  A DataView has no \<^verbatim>\<open>getInt64\<close> or \<^verbatim>\<open>getUint64\<close> (the 64-bit accessors are
  \<^verbatim>\<open>getBigInt64\<close> and \<^verbatim>\<open>getBigUint64\<close>): the argument is evaluated, which moves the
  cursor, and calling the undefined property raises TypeError.
\<close>

definition ri64 :: "heap \<Rightarrow> SerialReader \<Rightarrow> (error + int) \<times> SerialReader" where
  "ri64 h r = (let (saved, r') = rdelayedMove 8 r in (Inl TypeError, r'))"

definition ru8 :: "heap \<Rightarrow> SerialReader \<Rightarrow> (error + int) \<times> SerialReader" where
  "ru8 h r = (let (saved, r') = rdelayedMove 1 r in (getUint8 h (rdv r) saved, r'))"

definition ru16 :: "heap \<Rightarrow> SerialReader \<Rightarrow> (error + int) \<times> SerialReader" where
  "ru16 h r = (let (saved, r') = rdelayedMove 2 r in (getUint16 h (rdv r) saved, r'))"

definition ru32 :: "heap \<Rightarrow> SerialReader \<Rightarrow> (error + int) \<times> SerialReader" where
  "ru32 h r = (let (saved, r') = rdelayedMove 4 r in (getUint32 h (rdv r) saved, r'))"

definition ru64 :: "heap \<Rightarrow> SerialReader \<Rightarrow> (error + int) \<times> SerialReader" where
  "ru64 h r = (let (saved, r') = rdelayedMove 8 r in (Inl TypeError, r'))"

definition rf32 :: "heap \<Rightarrow> SerialReader \<Rightarrow> (error + 32 word) \<times> SerialReader" where
  "rf32 h r = (let (saved, r') = rdelayedMove 4 r in (getFloat32 h (rdv r) saved, r'))"

definition rf64 :: "heap \<Rightarrow> SerialReader \<Rightarrow> (error + 64 word) \<times> SerialReader" where
  "rf64 h r = (let (saved, r') = rdelayedMove 8 r in (getFloat64 h (rdv r) saved, r'))"

definition rbool :: "heap \<Rightarrow> SerialReader \<Rightarrow> (error + bool) \<times> SerialReader" where
  "rbool h r = (case ru8 h r of (Inl e, r') \<Rightarrow> (Inl e, r')
                | (Inr n, r') \<Rightarrow> (Inr (n > 0), r'))"

text \<open>\<^verbatim>\<open>String.fromCharCode\<close> of a byte: a string of one code unit below 256.\<close>

definition rchar :: "heap \<Rightarrow> SerialReader \<Rightarrow> (error + js_string) \<times> SerialReader" where
  "rchar h r = (case ru8 h r of (Inl e, r') \<Rightarrow> (Inl e, r')
                | (Inr n, r') \<Rightarrow> (Inr [nat n], r'))"

text \<open>
  \<^verbatim>\<open>ruv\<close>: the loop \<^verbatim>\<open>while (true)\<close> ends at the first byte without the bit 0x80, or
  when \<^verbatim>\<open>ru8\<close> raises at the end of the buffer. \<^verbatim>\<open>(n << 7) | (byte & 0x7F)\<close> is an
  Int32, so the accumulator is a 32-bit word that is read as signed when it is returned.
\<close>

function ruv_loop :: "heap \<Rightarrow> 32 word \<Rightarrow> SerialReader \<Rightarrow> (error + int) \<times> SerialReader" where
  "ruv_loop h n r =
     (case ru8 h r of
        (Inl e, r') \<Rightarrow> (Inl e, r')
      | (Inr byte, r') \<Rightarrow>
          (let n' = push_bit 7 n OR word_of_int (byte AND 0x7F)
           in if byte AND 0x80 = 0 then (Inr (sint n'), r') else ruv_loop h n' r'))"
  by pat_completeness auto
termination
  by (relation "measure (\<lambda>(h, n, r). nat (int (byteLength h (rdv r)) - rpos r))")
     (auto simp: ru8_def rdelayedMove_def getUint8_def dv_bytes_def split: if_splits)

declare ruv_loop.simps [simp del]

definition ruv :: "heap \<Rightarrow> SerialReader \<Rightarrow> (error + int) \<times> SerialReader" where
  "ruv h r = ruv_loop h 0 r"

definition riv :: "heap \<Rightarrow> SerialReader \<Rightarrow> (error + int) \<times> SerialReader" where
  "riv h r =
     (case ruv h r of
        (Inl e, r') \<Rightarrow> (Inl e, r')
      | (Inr n, r') \<Rightarrow>
          (let sign = (if (word_of_int n :: 32 word) AND 1 \<noteq> 0 then - 1 else 1);
               n' = uint (drop_bit 1 ((word_of_int n :: 32 word) AND NOT 1))
           in (Inr (n' * sign), r')))"

text \<open>
  \<^verbatim>\<open>rbytes\<close>: \<^verbatim>\<open>this.dv.buffer.slice(this.pos, this.pos += length)\<close> takes the cursor
  before and after the addition as the two indices of the slice.
\<close>

definition rbytes :: "heap \<Rightarrow> SerialReader \<Rightarrow> (error + addr) \<times> SerialReader \<times> heap" where
  "rbytes h r =
     (case ruv h r of
        (Inl e, r') \<Rightarrow> (Inl e, r', h)
      | (Inr len, r') \<Rightarrow>
          (let begin = rpos r';
               r'' = r'\<lparr>rpos := rpos r' + len\<rparr>;
               (a, h') = ab_slice h (rdv r'') begin (rpos r'')
           in (Inr a, r'', h')))"

text \<open>
  \<^verbatim>\<open>rutf8\<close> is \<^verbatim>\<open>new TextDecoder().decode(this.rarr())\<close>, and the class has no method
  \<^verbatim>\<open>rarr\<close>: evaluating the argument raises TypeError before any byte is read (the
  host is taken to have a TextDecoder).
\<close>

definition rutf8 :: "heap \<Rightarrow> SerialReader \<Rightarrow> (error + js_string) \<times> SerialReader" where
  "rutf8 h r = (Inl TypeError, r)"


section \<open>SerialWriter\<close>

record SerialWriter =
  wdv :: addr
  wpos :: nat

text \<open>
  A writer operation changes the writer and the store, and may raise: it returns the
  error, if any, with the state it leaves behind.
\<close>

type_synonym wstate = "SerialWriter \<times> heap"

text \<open>
  \<^verbatim>\<open>constructor(buffer)\<close>: without a buffer the cursor is 0 and the buffer is
  \<^verbatim>\<open>new ArrayBuffer(8)\<close>, otherwise the cursor is the length of the buffer given; the
  writer keeps \<^verbatim>\<open>buffer.slice(0)\<close>, a copy, in both cases.
\<close>

definition SerialWriter_new :: "addr option \<Rightarrow> heap \<Rightarrow> wstate" where
  "SerialWriter_new buffer h =
     (case buffer of
        None \<Rightarrow>
          (let (b, h1) = new_ArrayBuffer 8 h;
               (c, h2) = ab_slice h1 b 0 (int (byteLength h1 b))
           in (\<lparr>wdv = c, wpos = 0\<rparr>, h2))
      | Some b \<Rightarrow>
          (let (c, h2) = ab_slice h b 0 (int (byteLength h b))
           in (\<lparr>wdv = c, wpos = byteLength h b\<rparr>, h2)))"

text \<open>
  \<^verbatim>\<open>allocMin(length)\<close>: when \<^verbatim>\<open>length >= byteLength\<close>, a new buffer of
  \<^verbatim>\<open>Math.max(length, byteLength * 2)\<close> bytes receives the old bytes at its start
  (\<^verbatim>\<open>Uint8Array.set\<close>, which raises RangeError when the source does not fit) and
  becomes the writer's buffer.
\<close>

definition allocMin :: "nat \<Rightarrow> wstate \<Rightarrow> error option \<times> wstate" where
  "allocMin len s =
     (case s of (w, h) \<Rightarrow>
        if len \<ge> byteLength h (wdv w) then
          (let (newBuffer, h1) = new_ArrayBuffer (max len (byteLength h (wdv w) * 2)) h
           in case dv_store h1 newBuffer 0 (h1 ! wdv w) of
                Inl e \<Rightarrow> (Some e, (w, h1))
              | Inr h2 \<Rightarrow> (None, (w\<lparr>wdv := newBuffer\<rparr>, h2)))
        else (None, s))"

definition allocMinExtra :: "nat \<Rightarrow> wstate \<Rightarrow> error option \<times> wstate" where
  "allocMinExtra additionalLength s = allocMin (wpos (fst s) + additionalLength) s"

definition wdelayedMove :: "nat \<Rightarrow> wstate \<Rightarrow> (error + nat) \<times> wstate" where
  "wdelayedMove move s =
     (case s of (w, h) \<Rightarrow>
        (let saved = wpos w;
             w1 = w\<lparr>wpos := wpos w + move\<rparr>
         in case allocMin (wpos w1) (w1, h) of
              (Some e, s') \<Rightarrow> (Inl e, s')
            | (None, s') \<Rightarrow> (Inr saved, s')))"

definition wgetBuffer :: "wstate \<Rightarrow> addr \<times> heap" where
  "wgetBuffer s = (case s of (w, h) \<Rightarrow> ab_slice h (wdv w) 0 (int (wpos w)))"

text \<open>
  A fixed-width write is \<^verbatim>\<open>this.dv.setX(this.delayedMove(width), n)\<close>. JavaScript
  evaluates \<^verbatim>\<open>this.dv\<close> and looks the setter up before it evaluates the arguments, so
  the setter is called on the DataView the writer had before \<^verbatim>\<open>delayedMove\<close> ran: when
  \<^verbatim>\<open>allocMin\<close> has replaced the buffer, the bytes go to the buffer that was replaced, or
  the setter raises RangeError when they do not fit there.
\<close>

definition wfixed :: "nat \<Rightarrow> (heap \<Rightarrow> addr \<Rightarrow> nat \<Rightarrow> error + heap) \<Rightarrow> wstate
    \<Rightarrow> error option \<times> wstate" where
  "wfixed width setter s =
     (let dv = wdv (fst s)
      in case wdelayedMove width s of
           (Inl e, s') \<Rightarrow> (Some e, s')
         | (Inr saved, (w', h')) \<Rightarrow>
             (case setter h' dv saved of
                Inl e \<Rightarrow> (Some e, (w', h'))
              | Inr h'' \<Rightarrow> (None, (w', h''))))"

definition wi8 :: "int \<Rightarrow> wstate \<Rightarrow> error option \<times> wstate" where
  "wi8 n s = wfixed 1 (\<lambda>h a i. setInt8 h a i n) s"

definition wi16 :: "int \<Rightarrow> wstate \<Rightarrow> error option \<times> wstate" where
  "wi16 n s = wfixed 2 (\<lambda>h a i. setInt16 h a i n) s"

definition wi32 :: "int \<Rightarrow> wstate \<Rightarrow> error option \<times> wstate" where
  "wi32 n s = wfixed 4 (\<lambda>h a i. setInt32 h a i n) s"

text \<open>
  A DataView has no \<^verbatim>\<open>setInt64\<close> or \<^verbatim>\<open>setUint64\<close> either: the cursor moves, the
  buffer grows, and the call raises TypeError.
\<close>

definition wi64 :: "int \<Rightarrow> wstate \<Rightarrow> error option \<times> wstate" where
  "wi64 n s = wfixed 8 (\<lambda>h a i. Inl TypeError) s"

definition wu8 :: "int \<Rightarrow> wstate \<Rightarrow> error option \<times> wstate" where
  "wu8 n s = wfixed 1 (\<lambda>h a i. setUint8 h a i n) s"

definition wu16 :: "int \<Rightarrow> wstate \<Rightarrow> error option \<times> wstate" where
  "wu16 n s = wfixed 2 (\<lambda>h a i. setUint16 h a i n) s"

definition wu32 :: "int \<Rightarrow> wstate \<Rightarrow> error option \<times> wstate" where
  "wu32 n s = wfixed 4 (\<lambda>h a i. setUint32 h a i n) s"

definition wu64 :: "int \<Rightarrow> wstate \<Rightarrow> error option \<times> wstate" where
  "wu64 n s = wfixed 8 (\<lambda>h a i. Inl TypeError) s"

definition wf32 :: "32 word \<Rightarrow> wstate \<Rightarrow> error option \<times> wstate" where
  "wf32 bits s = wfixed 4 (\<lambda>h a i. setFloat32 h a i bits) s"

definition wf64 :: "64 word \<Rightarrow> wstate \<Rightarrow> error option \<times> wstate" where
  "wf64 bits s = wfixed 8 (\<lambda>h a i. setFloat64 h a i bits) s"

definition wbool :: "bool \<Rightarrow> wstate \<Rightarrow> error option \<times> wstate" where
  "wbool b s = wu8 (if b then 1 else 0) s"

text \<open>\<^verbatim>\<open>ch.charCodeAt(0)\<close> is NaN for the empty string, which \<^verbatim>\<open>setUint8\<close> stores as 0.\<close>

definition wchar :: "js_string \<Rightarrow> wstate \<Rightarrow> error option \<times> wstate" where
  "wchar ch s = wu8 (case ch of [] \<Rightarrow> 0 | c # _ \<Rightarrow> int c) s"

text \<open>
  \<^verbatim>\<open>wuv\<close>: \<^verbatim>\<open>Math.ceil(Math.log2(n) / 7)\<close> is NaN for a negative n and -Infinity for 0,
  and then the loop condition \<^verbatim>\<open>i >= 0\<close> fails at once; for \<open>n \<ge> 1\<close> it is the least k
  with \<open>n \<le> 2 ^ (7 * k)\<close> (lemmas \<open>ceil_log128_le_iff\<close> and \<open>wuv_byteLength_log\<close> below;
  \<^verbatim>\<open>Math.log2\<close> is taken at its mathematical value). \<open>ceil_log128\<close> is that number
  of rounds of the loop.
\<close>

function ceil_log128 :: "nat \<Rightarrow> nat" where
  "ceil_log128 n = (if n \<le> 1 then 0 else Suc (ceil_log128 ((n + 127) div 128)))"
  by pat_completeness auto
termination
  by (relation "measure id") auto

declare ceil_log128.simps [simp del]

definition wuv_byteLength :: "int \<Rightarrow> nat" where
  "wuv_byteLength n = (if n \<le> 0 then 0 else ceil_log128 (nat n))"

text \<open>
  The loop \<^verbatim>\<open>for (let i = byteLength - 1; i >= 0; i--)\<close>, with \<open>Suc i\<close> rounds left.
  \<^verbatim>\<open>n >>> (i * 7)\<close> converts n to Uint32 and uses the low five bits of the count.
\<close>

fun wuv_loop :: "nat \<Rightarrow> int \<Rightarrow> wstate \<Rightarrow> error option \<times> wstate" where
  "wuv_loop 0 n s = (None, s)"
| "wuv_loop (Suc i) n s =
     (let byte = drop_bit ((i * 7) mod 32) (word_of_int n :: 32 word) AND 0x7F;
          byte' = (if i \<noteq> 0 then byte OR 0x80 else byte)
      in case wu8 (uint byte') s of
           (Some e, s') \<Rightarrow> (Some e, s')
         | (None, s') \<Rightarrow> wuv_loop i n s')"

definition wuv :: "int \<Rightarrow> wstate \<Rightarrow> error option \<times> wstate" where
  "wuv n s = wuv_loop (wuv_byteLength n) n s"

text \<open>
  \<^verbatim>\<open>wiv\<close>: \<^verbatim>\<open>(Math.abs(n) << 1) | ((n < 0) ? 0x1 : 0x0)\<close> is an Int32, which
  \<^verbatim>\<open>wuv\<close> receives as a signed number.
\<close>

definition wiv :: "int \<Rightarrow> wstate \<Rightarrow> error option \<times> wstate" where
  "wiv n s =
     wuv (sint (push_bit 1 (word_of_int \<bar>n\<bar> :: 32 word) OR (if n < 0 then 1 else 0))) s"

text \<open>
  \<^verbatim>\<open>wbytes(buffer)\<close>: \<^verbatim>\<open>new Uint8Array(buffer)\<close> is a view of an ArrayBuffer and a
  copy of a typed array. The bytes are copied into the writer's buffer by
  \<^verbatim>\<open>Uint8Array.set\<close> at the cursor, after the length has been written and the space
  allocated.
\<close>

datatype bytes_arg = ArrayBuffer addr | TypedArray addr

definition new_Uint8Array :: "bytes_arg \<Rightarrow> heap \<Rightarrow> addr \<times> heap" where
  "new_Uint8Array arg h =
     (case arg of ArrayBuffer a \<Rightarrow> (a, h) | TypedArray a \<Rightarrow> (length h, h @ [h ! a]))"

definition wbytes :: "bytes_arg \<Rightarrow> wstate \<Rightarrow> error option \<times> wstate" where
  "wbytes arg s =
     (case s of (w, h) \<Rightarrow>
        (let (buffer, h0) = new_Uint8Array arg h;
             len = byteLength h0 buffer
         in case wuv (int len) (w, h0) of
              (Some e, s1) \<Rightarrow> (Some e, s1)
            | (None, s1) \<Rightarrow>
                (case allocMinExtra len s1 of
                   (Some e, s2) \<Rightarrow> (Some e, s2)
                 | (None, (w2, h2)) \<Rightarrow>
                     (case dv_store h2 (wdv w2) (wpos w2) (h2 ! buffer) of
                        Inl e \<Rightarrow> (Some e, (w2, h2))
                      | Inr h3 \<Rightarrow> (None, (w2\<lparr>wpos := wpos w2 + len\<rparr>, h3))))))"

text \<open>
  \<^verbatim>\<open>wutf8(str)\<close>: \<^verbatim>\<open>new TextEncoder().encode(str)\<close> is a Uint8Array over a fresh
  buffer. The encoder belongs to the host and is a parameter here.
\<close>

definition wutf8 :: "(js_string \<Rightarrow> byte list) \<Rightarrow> js_string \<Rightarrow> wstate \<Rightarrow> error option \<times> wstate" where
  "wutf8 encode str s =
     (case s of (w, h) \<Rightarrow> wbytes (TypedArray (length h)) (w, h @ [encode str]))"


section \<open>Operations as data\<close>

text \<open>
  The statements about every operation of a class range over the datatypes below: one
  constructor for each method of the source, with the arguments of the call.
  \<open>read_op\<close> and \<open>write_op\<close> call the method; \<open>rwidth\<close> and \<open>wwidth\<close> give the width
  of the fixed-width methods, the constant that the method passes to \<^verbatim>\<open>delayedMove\<close>.
\<close>

datatype rop = Ri8 | Ri16 | Ri32 | Ri64 | Ru8 | Ru16 | Ru32 | Ru64 | Rf32 | Rf64
  | Rbool | Rchar | Riv | Ruv | Rbytes | Rutf8

datatype rvalue = Num int | Float32 "32 word" | Float64 "64 word" | Bool bool
  | Str js_string | Buffer addr

definition returning :: "('a \<Rightarrow> rvalue) \<Rightarrow> heap \<Rightarrow> (error + 'a) \<times> SerialReader
    \<Rightarrow> (error + rvalue) \<times> SerialReader \<times> heap" where
  "returning f h x = (case x of (res, r') \<Rightarrow> (map_sum id f res, r', h))"

fun read_op :: "rop \<Rightarrow> heap \<Rightarrow> SerialReader \<Rightarrow> (error + rvalue) \<times> SerialReader \<times> heap" where
  "read_op Ri8 h r = returning Num h (ri8 h r)"
| "read_op Ri16 h r = returning Num h (ri16 h r)"
| "read_op Ri32 h r = returning Num h (ri32 h r)"
| "read_op Ri64 h r = returning Num h (ri64 h r)"
| "read_op Ru8 h r = returning Num h (ru8 h r)"
| "read_op Ru16 h r = returning Num h (ru16 h r)"
| "read_op Ru32 h r = returning Num h (ru32 h r)"
| "read_op Ru64 h r = returning Num h (ru64 h r)"
| "read_op Rf32 h r = returning Float32 h (rf32 h r)"
| "read_op Rf64 h r = returning Float64 h (rf64 h r)"
| "read_op Rbool h r = returning Bool h (rbool h r)"
| "read_op Rchar h r = returning Str h (rchar h r)"
| "read_op Riv h r = returning Num h (riv h r)"
| "read_op Ruv h r = returning Num h (ruv h r)"
| "read_op Rbytes h r = (case rbytes h r of (res, r', h') \<Rightarrow> (map_sum id Buffer res, r', h'))"
| "read_op Rutf8 h r = returning Str h (rutf8 h r)"

fun rwidth :: "rop \<Rightarrow> nat option" where
  "rwidth Ri8 = Some 1"
| "rwidth Ri16 = Some 2"
| "rwidth Ri32 = Some 4"
| "rwidth Ri64 = Some 8"
| "rwidth Ru8 = Some 1"
| "rwidth Ru16 = Some 2"
| "rwidth Ru32 = Some 4"
| "rwidth Ru64 = Some 8"
| "rwidth Rf32 = Some 4"
| "rwidth Rf64 = Some 8"
| "rwidth Rbool = Some 1"
| "rwidth Rchar = Some 1"
| "rwidth Riv = None"
| "rwidth Ruv = None"
| "rwidth Rbytes = None"
| "rwidth Rutf8 = None"

text \<open>What a returned value holds: for a buffer, its bytes in the store.\<close>

definition contents :: "heap \<Rightarrow> rvalue \<Rightarrow> rvalue + byte list" where
  "contents h v = (case v of Buffer a \<Rightarrow> Inr (h ! a) | _ \<Rightarrow> Inl v)"

datatype wop = Wi8 int | Wi16 int | Wi32 int | Wi64 int | Wu8 int | Wu16 int | Wu32 int
  | Wu64 int | Wf32 "32 word" | Wf64 "64 word" | Wbool bool | Wchar js_string
  | Wiv int | Wuv int | Wbytes bytes_arg | Wutf8 js_string

fun write_op :: "(js_string \<Rightarrow> byte list) \<Rightarrow> wop \<Rightarrow> wstate \<Rightarrow> error option \<times> wstate" where
  "write_op encode (Wi8 n) s = wi8 n s"
| "write_op encode (Wi16 n) s = wi16 n s"
| "write_op encode (Wi32 n) s = wi32 n s"
| "write_op encode (Wi64 n) s = wi64 n s"
| "write_op encode (Wu8 n) s = wu8 n s"
| "write_op encode (Wu16 n) s = wu16 n s"
| "write_op encode (Wu32 n) s = wu32 n s"
| "write_op encode (Wu64 n) s = wu64 n s"
| "write_op encode (Wf32 x) s = wf32 x s"
| "write_op encode (Wf64 x) s = wf64 x s"
| "write_op encode (Wbool b) s = wbool b s"
| "write_op encode (Wchar ch) s = wchar ch s"
| "write_op encode (Wiv n) s = wiv n s"
| "write_op encode (Wuv n) s = wuv n s"
| "write_op encode (Wbytes arg) s = wbytes arg s"
| "write_op encode (Wutf8 str) s = wutf8 encode str s"

fun wwidth :: "wop \<Rightarrow> nat option" where
  "wwidth (Wi8 n) = Some 1"
| "wwidth (Wi16 n) = Some 2"
| "wwidth (Wi32 n) = Some 4"
| "wwidth (Wi64 n) = Some 8"
| "wwidth (Wu8 n) = Some 1"
| "wwidth (Wu16 n) = Some 2"
| "wwidth (Wu32 n) = Some 4"
| "wwidth (Wu64 n) = Some 8"
| "wwidth (Wf32 x) = Some 4"
| "wwidth (Wf64 x) = Some 8"
| "wwidth (Wbool b) = Some 1"
| "wwidth (Wchar ch) = Some 1"
| "wwidth (Wiv n) = None"
| "wwidth (Wuv n) = None"
| "wwidth (Wbytes arg) = None"
| "wwidth (Wutf8 str) = None"

text \<open>
  A sequence of writer calls, each made whatever the one before did (a caller can catch
  the exception and go on).
\<close>

fun write_ops :: "(js_string \<Rightarrow> byte list) \<Rightarrow> wop list \<Rightarrow> wstate \<Rightarrow> wstate" where
  "write_ops encode [] s = s"
| "write_ops encode (x # xs) s = write_ops encode xs (snd (write_op encode x s))"

text \<open>Writing bytes one at a time with \<^verbatim>\<open>wu8\<close>, stopping at the first exception.\<close>

fun wu8_each :: "int list \<Rightarrow> wstate \<Rightarrow> error option \<times> wstate" where
  "wu8_each [] s = (None, s)"
| "wu8_each (n # ns) s =
     (case wu8 n s of (Some e, s') \<Rightarrow> (Some e, s') | (None, s') \<Rightarrow> wu8_each ns s')"

text \<open>The bytes of the buffer that \<^verbatim>\<open>getBuffer\<close> returns for a writer.\<close>

definition written :: "wstate \<Rightarrow> byte list" where
  "written s = (case wgetBuffer s of (a, h') \<Rightarrow> h' ! a)"


section \<open>The varint reader as a function of the bytes\<close>

text \<open>
  \<open>uv_decode n bs\<close> is what \<^verbatim>\<open>ruv\<close> computes from the bytes \<open>bs\<close> at the cursor with
  the accumulator n: the value and the number of bytes consumed, or nothing when every
  byte has the bit 0x80. \<open>uv_width\<close> counts the bytes up to and including the first
  one without that bit.
\<close>

fun uv_decode :: "32 word \<Rightarrow> byte list \<Rightarrow> (int \<times> nat) option" where
  "uv_decode n [] = None"
| "uv_decode n (b # bs) =
     (let n' = push_bit 7 n OR word_of_int (uint b AND 0x7F)
      in if uint b AND 0x80 = 0 then Some (sint n', 1)
         else map_option (\<lambda>(v, k). (v, Suc k)) (uv_decode n' bs))"

definition uv_width :: "byte list \<Rightarrow> nat" where
  "uv_width bs = Suc (length (takeWhile (\<lambda>b. uint b AND 0x80 \<noteq> 0) bs))"


text \<open>
  The byte counts of the cursor statements. \<open>declared_length\<close> is the length that
  \<^verbatim>\<open>rbytes\<close> decodes from its prefix. \<open>rcount\<close> is the number of bytes an operation of
  the reader is to consume from the bytes at the cursor: the width of a fixed-width
  operation, the width of the varint, and for \<^verbatim>\<open>rbytes\<close> the width of the prefix plus
  the declared length. \<open>wcount\<close> is the number of bytes an operation of the writer is
  to append: the width, the number of rounds of the loop of \<^verbatim>\<open>wuv\<close>, and for
  \<^verbatim>\<open>wbytes\<close> and \<^verbatim>\<open>wutf8\<close> that number for the length plus the length.
\<close>

definition declared_length :: "byte list \<Rightarrow> int" where
  "declared_length bs = (case uv_decode 0 bs of Some (len, k) \<Rightarrow> len | None \<Rightarrow> 0)"

fun rcount :: "rop \<Rightarrow> byte list \<Rightarrow> nat" where
  "rcount Ruv bs = uv_width bs"
| "rcount Riv bs = uv_width bs"
| "rcount Rbytes bs = uv_width bs + nat (declared_length bs)"
| "rcount Rutf8 bs = 0"
| "rcount op bs = (case rwidth op of Some k \<Rightarrow> k | None \<Rightarrow> 0)"

fun wcount :: "(js_string \<Rightarrow> byte list) \<Rightarrow> heap \<Rightarrow> wop \<Rightarrow> nat" where
  "wcount encode g (Wuv n) = wuv_byteLength n"
| "wcount encode g (Wiv n) =
     wuv_byteLength (sint (push_bit 1 (word_of_int \<bar>n\<bar> :: 32 word) OR (if n < 0 then 1 else 0)))"
| "wcount encode g (Wbytes (ArrayBuffer a)) = wuv_byteLength (int (length (g ! a))) + length (g ! a)"
| "wcount encode g (Wbytes (TypedArray a)) = wuv_byteLength (int (length (g ! a))) + length (g ! a)"
| "wcount encode g (Wutf8 str) =
     wuv_byteLength (int (length (encode str))) + length (encode str)"
| "wcount encode g op = (case wwidth op of Some k \<Rightarrow> k | None \<Rightarrow> 0)"


section \<open>States of the writer\<close>

text \<open>
  \<open>wvalid\<close> holds of the states a writer can be in: its buffer is in the store and the
  cursor is within it. \<open>source_in\<close> says that the buffer given to \<^verbatim>\<open>wbytes\<close> is in
  the store. \<open>grown\<close> relates a store to a later one: the buffers it had are still
  there, with their lengths.
\<close>

definition wvalid :: "wstate \<Rightarrow> bool" where
  "wvalid s = (case s of (w, h) \<Rightarrow> wdv w < length h \<and> wpos w \<le> byteLength h (wdv w))"

definition source_in :: "heap \<Rightarrow> wop \<Rightarrow> bool" where
  "source_in h wo = (case wo of Wbytes (ArrayBuffer a) \<Rightarrow> a < length h
                     | Wbytes (TypedArray a) \<Rightarrow> a < length h | _ \<Rightarrow> True)"

definition grown :: "heap \<Rightarrow> heap \<Rightarrow> bool" where
  "grown h h' = (take (length h) (map length h') = map length h)"

text \<open>
  For the statements that compare a run of the writer with the same run in a store that
  holds one buffer more: \<open>ins n x h\<close> is the store h with the buffer x added at address
  n, \<open>sh n\<close> is what an address of h becomes, and \<open>up\<close> and \<open>sh_wop\<close> carry that over
  to a state of the writer and to the source buffer of an operation.
\<close>

definition ins :: "nat \<Rightarrow> byte list \<Rightarrow> heap \<Rightarrow> heap" where
  "ins n x h = take n h @ x # drop n h"

definition sh :: "nat \<Rightarrow> addr \<Rightarrow> addr" where
  "sh n a = (if a < n then a else Suc a)"

definition up :: "nat \<Rightarrow> byte list \<Rightarrow> wstate \<Rightarrow> wstate" where
  "up n x s = (case s of (w, h) \<Rightarrow> (w\<lparr>wdv := sh n (wdv w)\<rparr>, ins n x h))"

fun sh_wop :: "nat \<Rightarrow> wop \<Rightarrow> wop" where
  "sh_wop n (Wbytes (ArrayBuffer a)) = Wbytes (ArrayBuffer (sh n a))"
| "sh_wop n (Wbytes (TypedArray a)) = Wbytes (TypedArray (sh n a))"
| "sh_wop n wo = wo"


section \<open>Properties\<close>

subsection \<open>Reading single bytes and varints\<close>

lemma word_rcat_single [simp]: "(word_rcat [b :: byte] :: 8 word) = b"
  by (simp add: word_rcat_def)

lemma ru8_in_range:
  "0 \<le> rpos r \<Longrightarrow> rpos r < int (length (h ! rdv r)) \<Longrightarrow>
   ru8 h r = (Inr (uint ((h ! rdv r) ! nat (rpos r))), r\<lparr>rpos := rpos r + 1\<rparr>)"
  by (simp add: ru8_def rdelayedMove_def getUint8_def dv_bytes_def byteLength_def
      take_Suc_conv_app_nth)

lemma ru8_out_of_range:
  "rpos r < 0 \<or> int (length (h ! rdv r)) \<le> rpos r \<Longrightarrow>
   ru8 h r = (Inl RangeError, r\<lparr>rpos := rpos r + 1\<rparr>)"
  by (auto simp: ru8_def rdelayedMove_def getUint8_def dv_bytes_def byteLength_def)

lemma ruv_loop_decode:
  "0 \<le> rpos r \<Longrightarrow>
   ruv_loop h n r =
     (case uv_decode n (drop (nat (rpos r)) (h ! rdv r)) of
        Some (v, k) \<Rightarrow> (Inr v, r\<lparr>rpos := rpos r + int k\<rparr>)
      | None \<Rightarrow> (Inl RangeError, r\<lparr>rpos := max (rpos r) (int (length (h ! rdv r))) + 1\<rparr>))"
proof (induction h n r rule: ruv_loop.induct)
  case (1 h n r)
  show ?case
  proof (cases "rpos r < int (length (h ! rdv r))")
    case False
    then show ?thesis
      by (subst ruv_loop.simps) (simp add: ru8_out_of_range max_def)
  next
    case True
    define b where "b = (h ! rdv r) ! nat (rpos r)"
    define n' where "n' = push_bit 7 n OR word_of_int (uint b AND 0x7F)"
    define r' where "r' = r\<lparr>rpos := rpos r + 1\<rparr>"
    have ru: "ru8 h r = (Inr (uint b), r')"
      using True "1.prems" by (simp add: ru8_in_range b_def r'_def)
    have dr: "drop (nat (rpos r)) (h ! rdv r) = b # drop (nat (rpos r')) (h ! rdv r')"
      using True "1.prems" by (simp add: b_def r'_def Cons_nth_drop_Suc nat_add_distrib)
    show ?thesis
    proof (cases "uint b AND 0x80 = 0")
      case z: True
      show ?thesis
        by (subst ruv_loop.simps) (simp add: ru dr z n'_def r'_def)
    next
      case nz: False
      have ih: "ruv_loop h n' r' =
        (case uv_decode n' (drop (nat (rpos r')) (h ! rdv r')) of
           Some (v, k) \<Rightarrow> (Inr v, r'\<lparr>rpos := rpos r' + int k\<rparr>)
         | None \<Rightarrow> (Inl RangeError, r'\<lparr>rpos := max (rpos r') (int (length (h ! rdv r'))) + 1\<rparr>))"
        using "1.IH"[OF ru[symmetric] refl refl nz] "1.prems" ru
        by (simp add: n'_def r'_def)
      have step: "ruv_loop h n r = ruv_loop h n' r'"
        by (subst ruv_loop.simps) (simp add: ru nz n'_def)
      have dec: "uv_decode n (drop (nat (rpos r)) (h ! rdv r)) =
          map_option (\<lambda>(v, k). (v, Suc k)) (uv_decode n' (drop (nat (rpos r')) (h ! rdv r')))"
        by (simp add: dr nz n'_def)
      show ?thesis
        unfolding step ih dec using True "1.prems"
        by (auto simp: r'_def max_def split: option.splits)
    qed
  qed
qed

lemma ruv_loop_negative:
  "rpos r < 0 \<Longrightarrow> ruv_loop h n r = (Inl RangeError, r\<lparr>rpos := rpos r + 1\<rparr>)"
  by (subst ruv_loop.simps) (simp add: ru8_out_of_range)


subsection \<open>The reader's operations in closed form\<close>

lemmas rfixed_defs = ri8_def ri16_def ri32_def ri64_def ru8_def ru16_def ru32_def ru64_def
  rf32_def rf64_def rbool_def rchar_def rdelayedMove_def returning_def

lemmas getter_defs = getInt8_def getInt16_def getInt32_def getUint8_def getUint16_def
  getUint32_def getFloat32_def getFloat64_def dv_bytes_def byteLength_def

lemma uv_decode_width: "uv_decode n bs = Some (v, k) \<Longrightarrow> k = uv_width bs"
proof (induction bs arbitrary: n v k)
  case Nil
  then show ?case by simp
next
  case (Cons b bs)
  then show ?case
    by (auto simp: uv_width_def Let_def split: if_splits)
qed

lemma uv_decode_None_iff:
  "uv_decode n bs = None \<longleftrightarrow> (\<forall>b\<in>set bs. uint b AND 0x80 \<noteq> 0)"
  by (induction bs arbitrary: n) (auto simp: Let_def)

lemma ruv_eq:
  "ruv h r =
     (if rpos r < 0 then (Inl RangeError, r\<lparr>rpos := rpos r + 1\<rparr>)
      else case uv_decode 0 (drop (nat (rpos r)) (h ! rdv r)) of
             Some (v, k) \<Rightarrow> (Inr v, r\<lparr>rpos := rpos r + int k\<rparr>)
           | None \<Rightarrow> (Inl RangeError,
                       r\<lparr>rpos := max (rpos r) (int (length (h ! rdv r))) + 1\<rparr>))"
  by (simp add: ruv_def ruv_loop_decode ruv_loop_negative)

lemma read_fixed_pos:
  "rwidth op = Some k \<Longrightarrow> rpos (fst (snd (read_op op h r))) = rpos r + int k"
  by (cases op) (auto simp: rfixed_defs split: prod.splits sum.splits)

lemma read_fixed_RangeError:
  "rwidth op = Some k \<Longrightarrow> op \<noteq> Ri64 \<Longrightarrow> op \<noteq> Ru64 \<Longrightarrow>
   int (length (h ! rdv r)) < rpos r + int k \<Longrightarrow> fst (read_op op h r) = Inl RangeError"
  by (cases op) (auto simp: rfixed_defs getter_defs split: prod.splits sum.splits)

lemma read_rdv: "rdv (fst (snd (read_op op h r))) = rdv r"
  by (cases op)
     (auto simp: rfixed_defs riv_def rbytes_def rutf8_def ruv_eq Let_def ab_slice_def
           split: prod.splits sum.splits option.splits)

lemma read_heap: "take (length h) (snd (snd (read_op op h r))) = h"
  by (cases op)
     (auto simp: rfixed_defs riv_def rbytes_def rutf8_def ruv_eq Let_def ab_slice_def
           split: prod.splits sum.splits option.splits)

lemma uv_decode_le: "uv_decode n bs = Some (v, k) \<Longrightarrow> 0 < k \<and> k \<le> length bs"
  by (induction bs arbitrary: n v k) (auto simp: Let_def split: if_splits)

lemma uv_decode_append:
  "uv_decode n bs = Some (v, k) \<Longrightarrow> uv_decode n (bs @ ys) = Some (v, k)"
  by (induction bs arbitrary: n v k) (auto simp: Let_def split: if_splits)

lemma riv_eq:
  "riv h r =
     (case ruv h r of
        (Inl e, r') \<Rightarrow> (Inl e, r')
      | (Inr n, r') \<Rightarrow>
          (Inr (uint (drop_bit 1 ((word_of_int n :: 32 word) AND NOT 1)) *
                (if (word_of_int n :: 32 word) AND 1 \<noteq> 0 then - 1 else 1)), r'))"
  by (simp add: riv_def Let_def split: prod.splits sum.splits)

lemma rbytes_eq:
  "rbytes h r =
     (case ruv h r of
        (Inl e, r') \<Rightarrow> (Inl e, r', h)
      | (Inr len, r') \<Rightarrow>
          (Inr (length h), r'\<lparr>rpos := rpos r' + len\<rparr>,
           h @ [take (clamp_index (length (h ! rdv r)) (rpos r' + len)
                      - clamp_index (length (h ! rdv r)) (rpos r'))
                  (drop (clamp_index (length (h ! rdv r)) (rpos r')) (h ! rdv r))]))"
  by (auto simp: rbytes_def Let_def ab_slice_def byteLength_def ruv_eq
      split: prod.splits sum.splits option.splits)

lemma rbytes_nonneg:
  assumes "0 \<le> rpos r" "uv_decode 0 (drop (nat (rpos r)) (h ! rdv r)) = Some (len, k)" "0 \<le> len"
  shows "rbytes h r =
     (Inr (length h), r\<lparr>rpos := rpos r + int k + len\<rparr>,
      h @ [take (nat len) (drop (nat (rpos r) + k) (h ! rdv r))])"
proof -
  have k: "0 < k" "k \<le> length (h ! rdv r) - nat (rpos r)"
    using uv_decode_le[OF assms(2)] by simp_all
  then have le: "nat (rpos r) + k \<le> length (h ! rdv r)" by linarith
  have le': "rpos r + int k \<le> int (length (h ! rdv r))"
    using assms(1) le by linarith
  have c1: "clamp_index (length (h ! rdv r)) (rpos r + int k) = nat (rpos r) + k"
    using assms(1) le' by (simp add: clamp_index_def nat_add_distrib)
  have c2: "clamp_index (length (h ! rdv r)) (rpos r + int k + len) =
      min (nat (rpos r) + k + nat len) (length (h ! rdv r))"
    using assms(1,3) le' by (simp add: clamp_index_def min_def) linarith
  have "take (min (nat (rpos r) + k + nat len) (length (h ! rdv r)) - (nat (rpos r) + k))
          (drop (nat (rpos r) + k) (h ! rdv r)) =
        take (nat len) (drop (nat (rpos r) + k) (h ! rdv r))"
    using le by (auto simp: min_def)
  then show ?thesis
    using assms by (simp add: rbytes_eq ruv_eq c1 c2)
qed

subsection \<open>Evaluating the operations on given stores\<close>

lemma replicate_numeral: "replicate (numeral k) x = x # replicate (pred_numeral k) x"
  by (simp add: numeral_eq_Suc)

lemmas dv_defs = replicate_numeral dv_bytes_def dv_store_def byteLength_def
  new_ArrayBuffer_def ab_slice_def clamp_index_def getUint8_def setUint8_def

lemmas w_defs = SerialWriter_new_def allocMin_def allocMinExtra_def wdelayedMove_def
  wgetBuffer_def wfixed_def wu8_def wuv_def wuv_byteLength_def ceil_log128.simps written_def

lemmas r_defs = SerialReader_new_def ruv_def ruv_loop_decode ruv_loop_negative

text \<open>
  C8. Writing the unsigned varint 300 with a new writer, whatever the store holds,
  raises nothing and the buffer extracted afterwards holds exactly the two bytes 0x82 and
  0x2C; the first has the bit 0x80 and the second has not; and \<^verbatim>\<open>ruv\<close> over a buffer
  of these two bytes returns 300 with the cursor at 2.
\<close>

theorem wuv_300_bytes:
  "fst (wuv 300 (SerialWriter_new None h)) = None \<and>
   written (snd (wuv 300 (SerialWriter_new None h))) = [0x82, 0x2C] \<and>
   (0x82 :: byte) AND 0x80 = 0x80 \<and> (0x2C :: byte) AND 0x80 = 0 \<and>
   ruv (g @ [[0x82, 0x2C]]) (SerialReader_new (length g) None) =
     (Inr 300, \<lparr>rdv = length g, rpos = 2\<rparr>)"
  by (simp add: w_defs dv_defs r_defs Let_def nth_append)

text \<open>
  C1, at the input 0. A new writer over the empty store writes no byte for
  \<^verbatim>\<open>wuv(0)\<close>: the cursor stays at 0, the extracted buffer is empty, and \<^verbatim>\<open>ruv\<close> over
  it raises RangeError instead of returning 0.
\<close>

theorem wuv_0_writes_nothing:
  "wuv 0 (SerialWriter_new None []) =
     (None, \<lparr>wdv = 1, wpos = 0\<rparr>, [[0, 0, 0, 0, 0, 0, 0, 0], [0, 0, 0, 0, 0, 0, 0, 0]]) \<and>
   wgetBuffer (\<lparr>wdv = 1, wpos = 0\<rparr>, [[0, 0, 0, 0, 0, 0, 0, 0], [0, 0, 0, 0, 0, 0, 0, 0]]) =
     (2, [[0, 0, 0, 0, 0, 0, 0, 0], [0, 0, 0, 0, 0, 0, 0, 0], []]) \<and>
   ruv [[0, 0, 0, 0, 0, 0, 0, 0], [0, 0, 0, 0, 0, 0, 0, 0], []] (SerialReader_new 2 None) =
     (Inl RangeError, \<lparr>rdv = 2, rpos = 1\<rparr>)"
  by (simp add: w_defs dv_defs r_defs Let_def)

text \<open>
  The same defect at a power of 128: \<^verbatim>\<open>Math.ceil(Math.log2(128) / 7)\<close> is 1, the one
  byte written is \<open>128 AND 0x7F = 0\<close>, and it decodes to 0.
\<close>

lemma wuv_128_writes_zero:
  "wuv 128 (SerialWriter_new None []) =
     (None, \<lparr>wdv = 1, wpos = 1\<rparr>, [[0, 0, 0, 0, 0, 0, 0, 0], [0, 0, 0, 0, 0, 0, 0, 0]]) \<and>
   wgetBuffer (\<lparr>wdv = 1, wpos = 1\<rparr>, [[0, 0, 0, 0, 0, 0, 0, 0], [0, 0, 0, 0, 0, 0, 0, 0]]) =
     (2, [[0, 0, 0, 0, 0, 0, 0, 0], [0, 0, 0, 0, 0, 0, 0, 0], [0]]) \<and>
   ruv [[0, 0, 0, 0, 0, 0, 0, 0], [0, 0, 0, 0, 0, 0, 0, 0], [0]] (SerialReader_new 2 None) =
     (Inr 0, \<lparr>rdv = 2, rpos = 1\<rparr>)"
  by (simp add: w_defs dv_defs r_defs Let_def)

text \<open>
  C2, at the input 0. \<^verbatim>\<open>wiv(0)\<close> passes 0 to \<^verbatim>\<open>wuv\<close>, which writes no byte:
  the extracted buffer is empty and \<^verbatim>\<open>riv\<close> over it raises RangeError.
\<close>

theorem wiv_0_writes_nothing:
  "wiv 0 (SerialWriter_new None []) =
     (None, \<lparr>wdv = 1, wpos = 0\<rparr>, [[0, 0, 0, 0, 0, 0, 0, 0], [0, 0, 0, 0, 0, 0, 0, 0]]) \<and>
   wgetBuffer (\<lparr>wdv = 1, wpos = 0\<rparr>, [[0, 0, 0, 0, 0, 0, 0, 0], [0, 0, 0, 0, 0, 0, 0, 0]]) =
     (2, [[0, 0, 0, 0, 0, 0, 0, 0], [0, 0, 0, 0, 0, 0, 0, 0], []]) \<and>
   riv [[0, 0, 0, 0, 0, 0, 0, 0], [0, 0, 0, 0, 0, 0, 0, 0], []] (SerialReader_new 2 None) =
     (Inl RangeError, \<lparr>rdv = 2, rpos = 1\<rparr>)"
  by (simp add: wiv_def riv_def w_defs dv_defs r_defs Let_def)

text \<open>\<^verbatim>\<open>wiv(64)\<close> passes 128 to \<^verbatim>\<open>wuv\<close>: one zero byte, which \<^verbatim>\<open>riv\<close> reads as 0.\<close>

lemma wiv_64_reads_zero:
  "wiv 64 (SerialWriter_new None []) =
     (None, \<lparr>wdv = 1, wpos = 1\<rparr>, [[0, 0, 0, 0, 0, 0, 0, 0], [0, 0, 0, 0, 0, 0, 0, 0]]) \<and>
   wgetBuffer (\<lparr>wdv = 1, wpos = 1\<rparr>, [[0, 0, 0, 0, 0, 0, 0, 0], [0, 0, 0, 0, 0, 0, 0, 0]]) =
     (2, [[0, 0, 0, 0, 0, 0, 0, 0], [0, 0, 0, 0, 0, 0, 0, 0], [0]]) \<and>
   riv [[0, 0, 0, 0, 0, 0, 0, 0], [0, 0, 0, 0, 0, 0, 0, 0], [0]] (SerialReader_new 2 None) =
     (Inr 0, \<lparr>rdv = 2, rpos = 1\<rparr>)"
  by (simp add: wiv_def riv_def w_defs dv_defs r_defs Let_def)

text \<open>
  C4, at the empty byte sequence. The store holds one empty ArrayBuffer at address 0.
  \<^verbatim>\<open>wbytes\<close> of it on a new writer writes no length byte and no payload; \<^verbatim>\<open>rbytes\<close>
  over the extracted (empty) buffer raises RangeError instead of returning an empty
  sequence.
\<close>

theorem wbytes_empty_unreadable:
  "wbytes (ArrayBuffer 0) (SerialWriter_new None [[]]) =
     (None, \<lparr>wdv = 2, wpos = 0\<rparr>, [[], [0, 0, 0, 0, 0, 0, 0, 0], [0, 0, 0, 0, 0, 0, 0, 0]]) \<and>
   wgetBuffer (\<lparr>wdv = 2, wpos = 0\<rparr>, [[], [0, 0, 0, 0, 0, 0, 0, 0], [0, 0, 0, 0, 0, 0, 0, 0]]) =
     (3, [[], [0, 0, 0, 0, 0, 0, 0, 0], [0, 0, 0, 0, 0, 0, 0, 0], []]) \<and>
   rbytes [[], [0, 0, 0, 0, 0, 0, 0, 0], [0, 0, 0, 0, 0, 0, 0, 0], []] (SerialReader_new 3 None) =
     (Inl RangeError, \<lparr>rdv = 3, rpos = 1\<rparr>,
      [[], [0, 0, 0, 0, 0, 0, 0, 0], [0, 0, 0, 0, 0, 0, 0, 0], []])"
  by (simp add: wbytes_def new_Uint8Array_def rbytes_def w_defs dv_defs r_defs Let_def)

text \<open>
  A sequence of length 1, the byte 7: no length byte is written, so \<^verbatim>\<open>rbytes\<close> takes
  the 7 for the length and returns an empty buffer (at address 4), with the cursor at 8.
\<close>

lemma wbytes_one_byte_lost:
  "wbytes (ArrayBuffer 0) (SerialWriter_new None [[7]]) =
     (None, \<lparr>wdv = 2, wpos = 1\<rparr>, [[7], [0, 0, 0, 0, 0, 0, 0, 0], [7, 0, 0, 0, 0, 0, 0, 0]]) \<and>
   wgetBuffer (\<lparr>wdv = 2, wpos = 1\<rparr>, [[7], [0, 0, 0, 0, 0, 0, 0, 0], [7, 0, 0, 0, 0, 0, 0, 0]]) =
     (3, [[7], [0, 0, 0, 0, 0, 0, 0, 0], [7, 0, 0, 0, 0, 0, 0, 0], [7]]) \<and>
   rbytes [[7], [0, 0, 0, 0, 0, 0, 0, 0], [7, 0, 0, 0, 0, 0, 0, 0], [7]] (SerialReader_new 3 None) =
     (Inr 4, \<lparr>rdv = 3, rpos = 8\<rparr>,
      [[7], [0, 0, 0, 0, 0, 0, 0, 0], [7, 0, 0, 0, 0, 0, 0, 0], [7], []])"
  by (simp add: wbytes_def new_Uint8Array_def rbytes_def w_defs dv_defs r_defs Let_def)

text \<open>
  C5, at the bytes 1 to 8. A new writer over the empty store has its 8-byte buffer at
  address 1. The eighth \<^verbatim>\<open>wu8\<close> moves the cursor to 8, which makes \<^verbatim>\<open>allocMin\<close>
  allocate a 16-byte buffer at address 2 with a copy of the first seven bytes, and then
  stores the 8 into the buffer at address 1, which the writer no longer uses: the
  extracted buffer has length 8 and ends in 0.
\<close>

theorem wu8_eighth_byte_lost:
  "wu8_each [1, 2, 3, 4, 5, 6, 7, 8] (SerialWriter_new None []) =
     (None, \<lparr>wdv = 2, wpos = 8\<rparr>,
      [[0, 0, 0, 0, 0, 0, 0, 0], [1, 2, 3, 4, 5, 6, 7, 8],
       [1, 2, 3, 4, 5, 6, 7, 0, 0, 0, 0, 0, 0, 0, 0, 0]]) \<and>
   written (\<lparr>wdv = 2, wpos = 8\<rparr>,
      [[0, 0, 0, 0, 0, 0, 0, 0], [1, 2, 3, 4, 5, 6, 7, 8],
       [1, 2, 3, 4, 5, 6, 7, 0, 0, 0, 0, 0, 0, 0, 0, 0]]) = [1, 2, 3, 4, 5, 6, 7, 0]"
  by (simp add: w_defs dv_defs Let_def)

text \<open>
  C6. \<^verbatim>\<open>rutf8\<close> raises TypeError for every reader and every store, before it reads
  a byte or moves the cursor: no string is read back.
\<close>

theorem rutf8_raises:
  "rutf8 h r = (Inl TypeError, r) \<and> read_op Rutf8 h r = (Inl TypeError, r, h)"
  by (simp add: rutf8_def returning_def)

subsection \<open>Reads past the end of the buffer\<close>

lemma read_varint_RangeError:
  assumes "op = Ruv \<or> op = Riv \<or> op = Rbytes"
    and "rpos r < 0 \<or> (\<forall>b\<in>set (drop (nat (rpos r)) (h ! rdv r)). uint b AND 0x80 \<noteq> 0)"
  shows "fst (read_op op h r) = Inl RangeError"
proof -
  have "fst (ruv h r) = Inl RangeError"
    using assms(2) by (auto simp: ruv_eq uv_decode_None_iff[symmetric, of _ 0])
  then show ?thesis
    using assms(1)
    by (auto simp: returning_def riv_eq rbytes_eq split: prod.splits sum.splits)
qed

text \<open>
  C3 as stated fails for \<^verbatim>\<open>rbytes\<close>. The buffer at address 0 holds the two bytes 5
  and 1: the length prefix is 5, the payload would be the bytes 1 to 5, and the buffer
  ends at 2. \<^verbatim>\<open>rbytes\<close> raises nothing: it returns a new buffer (address 1) holding
  the one byte that is there, and leaves the cursor at 6.
\<close>

theorem rbytes_truncates:
  "rbytes [[5, 1]] (SerialReader_new 0 None) = (Inr 1, \<lparr>rdv = 0, rpos = 6\<rparr>, [[5, 1], [1]])"
  by (simp add: rbytes_def dv_defs r_defs Let_def)

text \<open>
  C3, amended. A fixed-width read through an accessor the DataView has (8, 16 and 32-bit
  integers, floats, bool, char) whose bytes extend past the end of the buffer raises
  RangeError. A varint read (\<^verbatim>\<open>ruv\<close>, \<^verbatim>\<open>riv\<close>, the length prefix of \<^verbatim>\<open>rbytes\<close>)
  raises RangeError when the cursor is negative or every byte from the cursor to the end
  has the continuation bit. \<^verbatim>\<open>rbytes\<close> whose length prefix decodes to a non-negative
  length raises nothing, whatever the length: it returns a new buffer with the bytes
  that follow the prefix, at most that many, and as many as the buffer has.
\<close>

theorem reads_past_the_end:
  "(rwidth op = Some k \<and> op \<noteq> Ri64 \<and> op \<noteq> Ru64 \<and>
      int (length (h ! rdv r)) < rpos r + int k
      \<longrightarrow> fst (read_op op h r) = Inl RangeError) \<and>
   ((op = Ruv \<or> op = Riv \<or> op = Rbytes) \<and>
      (rpos r < 0 \<or> (\<forall>b\<in>set (drop (nat (rpos r)) (h ! rdv r)). uint b AND 0x80 \<noteq> 0))
      \<longrightarrow> fst (read_op op h r) = Inl RangeError) \<and>
   (0 \<le> rpos r \<and> uv_decode 0 (drop (nat (rpos r)) (h ! rdv r)) = Some (len, n) \<and> 0 \<le> len
      \<longrightarrow> rbytes h r =
            (Inr (length h), r\<lparr>rpos := rpos r + int n + len\<rparr>,
             h @ [take (nat len) (drop (nat (rpos r) + n) (h ! rdv r))]))"
  using read_fixed_RangeError[of op k h r] read_varint_RangeError[of op r h]
    rbytes_nonneg[of r h len n]
  by blast

theorem reads_past_the_end_witness:
  "fst (read_op Ru16 [[1]] \<lparr>rdv = 0, rpos = 0\<rparr>) = Inl RangeError \<and>
   fst (read_op Ruv [[0x80]] \<lparr>rdv = 0, rpos = 0\<rparr>) = Inl RangeError \<and>
   rbytes [[5, 1]] \<lparr>rdv = 0, rpos = 0\<rparr> = (Inr 1, \<lparr>rdv = 0, rpos = 6\<rparr>, [[5, 1], [1]])"
proof -
  have a: "rwidth Ru16 = Some 2 \<and> Ru16 \<noteq> Ri64 \<and> Ru16 \<noteq> Ru64 \<and>
      int (length ([[1 :: byte]] ! rdv \<lparr>rdv = 0, rpos = 0\<rparr>)) < rpos \<lparr>rdv = 0, rpos = 0\<rparr> + int 2"
    by simp
  have b: "(Ruv = Ruv \<or> Ruv = Riv \<or> Ruv = Rbytes) \<and>
      (rpos \<lparr>rdv = 0, rpos = 0\<rparr> < 0 \<or>
       (\<forall>b\<in>set (drop (nat (rpos \<lparr>rdv = 0, rpos = 0\<rparr>)) ([[0x80 :: byte]] ! rdv \<lparr>rdv = 0, rpos = 0\<rparr>)).
          uint b AND 0x80 \<noteq> 0))"
    by simp
  have c: "0 \<le> rpos \<lparr>rdv = 0, rpos = 0\<rparr> \<and>
      uv_decode 0 (drop (nat (rpos \<lparr>rdv = 0, rpos = 0\<rparr>)) ([[5 :: byte, 1]] ! rdv \<lparr>rdv = 0, rpos = 0\<rparr>))
        = Some (5, 1) \<and> (0 :: int) \<le> 5"
    by simp
  show ?thesis
    using a b c
      reads_past_the_end[of Ru16 2 "[[1]]" "\<lparr>rdv = 0, rpos = 0\<rparr>"]
      reads_past_the_end[of Ruv _ "[[0x80]]" "\<lparr>rdv = 0, rpos = 0\<rparr>"]
      reads_past_the_end[of _ _ "[[5, 1]]" "\<lparr>rdv = 0, rpos = 0\<rparr>" 5 1]
    by simp
qed

subsection \<open>The buffer of a reader\<close>

text \<open>
  C10. \<^verbatim>\<open>getBuffer\<close> of a reader returns the address the reader was constructed with,
  whatever the cursor; no read operation changes that address, and none changes a
  buffer of the store (a read only ever adds the buffer that \<^verbatim>\<open>rbytes\<close> returns): the
  buffer returned is the one given, not a copy and not trimmed. \<^verbatim>\<open>getBuffer\<close> of a
  writer returns an address that no buffer of the store had.
\<close>

theorem reader_getBuffer_same_buffer:
  "rgetBuffer (SerialReader_new a p) = a \<and>
   rgetBuffer (fst (snd (read_op op h r))) = rgetBuffer r \<and>
   take (length h) (snd (snd (read_op op h r))) = h \<and>
   fst (wgetBuffer (w, h)) = length h"
  by (simp add: rgetBuffer_def SerialReader_new_def read_rdv read_heap wgetBuffer_def
      ab_slice_def Let_def)

subsection \<open>Reading the same bytes from a longer buffer\<close>

lemma dv_bytes_append:
  "dv_bytes h1 a1 i k = Inr bs \<Longrightarrow> h ! a = h1 ! a1 @ ys \<Longrightarrow> dv_bytes h a i k = Inr bs"
  by (auto simp: dv_bytes_def byteLength_def split: if_splits)

lemma dv_bytes_prepend:
  "dv_bytes h2 a2 i k = Inr bs \<Longrightarrow> h ! a = xs @ h2 ! a2 \<Longrightarrow>
   dv_bytes h a (i + int (length xs)) k = Inr bs"
  by (auto simp: dv_bytes_def byteLength_def nat_add_distrib split: if_splits)

lemma ruv_append:
  assumes "ruv h1 r1 = (Inr v, r1')" "h ! a = h1 ! rdv r1 @ ys"
  shows "ruv h \<lparr>rdv = a, rpos = rpos r1\<rparr> = (Inr v, \<lparr>rdv = a, rpos = rpos r1'\<rparr>)"
proof -
  from assms(1) obtain k where p: "0 \<le> rpos r1"
    and d: "uv_decode 0 (drop (nat (rpos r1)) (h1 ! rdv r1)) = Some (v, k)"
    and r: "rpos r1' = rpos r1 + int k"
    by (auto simp: ruv_eq split: if_splits option.splits)
  have "k \<le> length (drop (nat (rpos r1)) (h1 ! rdv r1))"
    using uv_decode_le[OF d] by simp
  then have "nat (rpos r1) \<le> length (h1 ! rdv r1)" using uv_decode_le[OF d] by simp
  then have "drop (nat (rpos r1)) (h ! a) = drop (nat (rpos r1)) (h1 ! rdv r1) @ ys"
    by (simp add: assms(2))
  then show ?thesis
    using p r uv_decode_append[OF d, of ys] by (simp add: ruv_eq)
qed

lemma ruv_prepend:
  assumes "ruv h2 r2 = (Inr v, r2')" "h ! a = xs @ h2 ! rdv r2"
  shows "ruv h \<lparr>rdv = a, rpos = rpos r2 + int (length xs)\<rparr> =
           (Inr v, \<lparr>rdv = a, rpos = rpos r2' + int (length xs)\<rparr>)"
proof -
  from assms(1) obtain k where p: "0 \<le> rpos r2"
    and d: "uv_decode 0 (drop (nat (rpos r2)) (h2 ! rdv r2)) = Some (v, k)"
    and r: "rpos r2' = rpos r2 + int k"
    by (auto simp: ruv_eq split: if_splits option.splits)
  have "drop (nat (rpos r2 + int (length xs))) (h ! a) = drop (nat (rpos r2)) (h2 ! rdv r2)"
    using p by (simp add: assms(2) nat_add_distrib)
  then show ?thesis
    using p r d by (simp add: ruv_eq)
qed


lemma read_fixed_append:
  assumes "rwidth op = Some k" "read_op op h1 r1 = (Inr v, r1', h1')"
    "h ! a = h1 ! rdv r1 @ ys"
  shows "read_op op h \<lparr>rdv = a, rpos = rpos r1\<rparr> = (Inr v, \<lparr>rdv = a, rpos = rpos r1'\<rparr>, h)"
  using assms
  by (cases op) (auto simp: rfixed_defs getter_defs split: if_splits prod.splits sum.splits)

lemma read_fixed_prepend:
  assumes "rwidth op = Some k" "read_op op h2 r2 = (Inr v, r2', h2')"
    "h ! a = xs @ h2 ! rdv r2"
  shows "read_op op h \<lparr>rdv = a, rpos = rpos r2 + int (length xs)\<rparr> =
     (Inr v, \<lparr>rdv = a, rpos = rpos r2' + int (length xs)\<rparr>, h)"
  using assms
  by (cases op)
     (auto simp: rfixed_defs getter_defs nat_add_distrib split: if_splits prod.splits sum.splits)


lemma rbytes_append:
  assumes "rbytes h1 r1 = (Inr b, r1', h1')" "0 \<le> rpos r1'"
    "rpos r1' \<le> int (length (h1 ! rdv r1))" "h ! a = h1 ! rdv r1 @ ys"
  shows "rbytes h \<lparr>rdv = a, rpos = rpos r1\<rparr> =
           (Inr (length h), \<lparr>rdv = a, rpos = rpos r1'\<rparr>, h @ [h1' ! b])"
proof -
  from assms(1) obtain len rm where
    ru: "ruv h1 r1 = (Inr len, rm)" and r: "r1' = rm\<lparr>rpos := rpos rm + len\<rparr>"
    and b: "b = length h1"
    and c: "h1' = h1 @ [take (clamp_index (length (h1 ! rdv r1)) (rpos rm + len)
                      - clamp_index (length (h1 ! rdv r1)) (rpos rm))
                  (drop (clamp_index (length (h1 ! rdv r1)) (rpos rm)) (h1 ! rdv r1))]"
    by (auto simp: rbytes_eq split: prod.splits sum.splits)
  from ru obtain k where p: "0 \<le> rpos r1"
    and d: "uv_decode 0 (drop (nat (rpos r1)) (h1 ! rdv r1)) = Some (len, k)"
    and m: "rpos rm = rpos r1 + int k"
    by (auto simp: ruv_eq split: if_splits option.splits)
  have le: "rpos rm \<le> int (length (h1 ! rdv r1))" "0 \<le> rpos rm"
    using uv_decode_le[OF d] p m by auto
  have ru': "ruv h \<lparr>rdv = a, rpos = rpos r1\<rparr> = (Inr len, \<lparr>rdv = a, rpos = rpos rm\<rparr>)"
    by (rule ruv_append[OF ru assms(4)])
  have e: "0 \<le> rpos rm + len" "rpos rm + len \<le> int (length (h1 ! rdv r1))"
    using assms(2,3) r by simp_all
  show ?thesis
    using le e
    by (simp add: rbytes_eq ru' r b c assms(4) clamp_index_def min_def)
qed


lemma clamp_index_shift:
  "0 \<le> e \<Longrightarrow> clamp_index (length xs + n) (e + int (length xs)) = clamp_index n e + length xs"
  by (auto simp: clamp_index_def min_def nat_add_distrib)

lemma rbytes_prepend:
  assumes "rbytes h2 r2 = (Inr b, r2', h2')" "0 \<le> rpos r2'" "h ! a = xs @ h2 ! rdv r2"
  shows "rbytes h \<lparr>rdv = a, rpos = rpos r2 + int (length xs)\<rparr> =
           (Inr (length h), \<lparr>rdv = a, rpos = rpos r2' + int (length xs)\<rparr>, h @ [h2' ! b])"
proof -
  from assms(1) obtain len rm where
    ru: "ruv h2 r2 = (Inr len, rm)" and r: "r2' = rm\<lparr>rpos := rpos rm + len\<rparr>"
    and b: "b = length h2"
    and c: "h2' = h2 @ [take (clamp_index (length (h2 ! rdv r2)) (rpos rm + len)
                      - clamp_index (length (h2 ! rdv r2)) (rpos rm))
                  (drop (clamp_index (length (h2 ! rdv r2)) (rpos rm)) (h2 ! rdv r2))]"
    by (auto simp: rbytes_eq split: prod.splits sum.splits)
  from ru obtain k where p: "0 \<le> rpos r2" and m: "rpos rm = rpos r2 + int k"
    by (auto simp: ruv_eq split: if_splits option.splits)
  have ru': "ruv h \<lparr>rdv = a, rpos = rpos r2 + int (length xs)\<rparr> =
      (Inr len, \<lparr>rdv = a, rpos = rpos rm + int (length xs)\<rparr>)"
    by (rule ruv_prepend[OF ru assms(3)])
  have e: "0 \<le> rpos rm" "0 \<le> rpos rm + len"
    using assms(2) r p m by simp_all
  have s1: "clamp_index (length xs + length (h2 ! rdv r2)) (rpos rm + int (length xs)) =
      clamp_index (length (h2 ! rdv r2)) (rpos rm) + length xs"
    by (rule clamp_index_shift[OF e(1)])
  have s2: "clamp_index (length xs + length (h2 ! rdv r2)) (rpos rm + int (length xs) + len) =
      clamp_index (length (h2 ! rdv r2)) (rpos rm + len) + length xs"
    using clamp_index_shift[OF e(2), of xs "length (h2 ! rdv r2)"] by (simp add: add.commute add.left_commute)
  show ?thesis
    by (simp add: rbytes_eq ru' r b c assms(3) s1 s2)
qed

lemma map_sum_Inr_iff: "map_sum f g x = Inr v \<longleftrightarrow> (\<exists>y. x = Inr y \<and> v = g y)"
  by (cases x) auto

lemma read_fixed_contents:
  "rwidth op = Some k \<Longrightarrow> read_op op h r = (Inr v, r', h') \<Longrightarrow> contents g v = Inl v"
  by (cases op) (auto simp: rfixed_defs contents_def map_sum_Inr_iff split: prod.splits sum.splits)

lemma read_op_append:
  assumes "read_op op h1 r1 = (Inr v, r1', h1')" "0 \<le> rpos r1'"
    "rpos r1' \<le> int (length (h1 ! rdv r1))" "h ! a = h1 ! rdv r1 @ ys"
  shows "\<exists>u h'. read_op op h \<lparr>rdv = a, rpos = rpos r1\<rparr> = (Inr u, \<lparr>rdv = a, rpos = rpos r1'\<rparr>, h')
           \<and> contents h' u = contents h1' v \<and> take (length h) h' = h"
proof (cases "rwidth op")
  case (Some k)
  then show ?thesis
    using read_fixed_append[OF Some assms(1,4)] read_fixed_contents[OF Some assms(1)]
    by simp
next
  case None
  then consider "op = Ruv" | "op = Riv" | "op = Rbytes" | "op = Rutf8"
    by (cases op) simp_all
  then show ?thesis
  proof cases
    case 1
    then show ?thesis
      using assms(1) ruv_append[OF _ assms(4), of _ r1']
      by (auto simp: returning_def contents_def map_sum_Inr_iff split: prod.splits sum.splits)
  next
    case 2
    then show ?thesis
      using assms(1) ruv_append[OF _ assms(4), of _ r1']
      by (auto simp: returning_def riv_eq contents_def map_sum_Inr_iff split: prod.splits sum.splits)
  next
    case 3
    then show ?thesis
      using assms(1) rbytes_append[OF _ assms(2,3,4), of _ h1']
      by (auto simp: contents_def map_sum_Inr_iff split: prod.splits sum.splits)
  next
    case 4
    then show ?thesis
      using assms(1) by (simp add: returning_def rutf8_def)
  qed
qed

lemma read_op_prepend:
  assumes "read_op op h2 r2 = (Inr v, r2', h2')" "0 \<le> rpos r2'" "h ! a = xs @ h2 ! rdv r2"
  shows "\<exists>u h'. read_op op h \<lparr>rdv = a, rpos = rpos r2 + int (length xs)\<rparr> =
             (Inr u, \<lparr>rdv = a, rpos = rpos r2' + int (length xs)\<rparr>, h')
           \<and> contents h' u = contents h2' v \<and> take (length h) h' = h"
proof (cases "rwidth op")
  case (Some k)
  then show ?thesis
    using read_fixed_prepend[OF Some assms(1,3)] read_fixed_contents[OF Some assms(1)]
    by simp
next
  case None
  then consider "op = Ruv" | "op = Riv" | "op = Rbytes" | "op = Rutf8"
    by (cases op) simp_all
  then show ?thesis
  proof cases
    case 1
    then show ?thesis
      using assms(1) ruv_prepend[OF _ assms(3), of _ r2']
      by (auto simp: returning_def contents_def map_sum_Inr_iff split: prod.splits sum.splits)
  next
    case 2
    then show ?thesis
      using assms(1) ruv_prepend[OF _ assms(3), of _ r2']
      by (auto simp: returning_def riv_eq contents_def map_sum_Inr_iff split: prod.splits sum.splits)
  next
    case 3
    then show ?thesis
      using assms(1) rbytes_prepend[OF _ assms(2,3), of _ h2']
      by (auto simp: contents_def map_sum_Inr_iff split: prod.splits sum.splits)
  next
    case 4
    then show ?thesis
      using assms(1) by (simp add: returning_def rutf8_def)
  qed
qed

lemma read_compose:
  assumes "read_op op1 h1 \<lparr>rdv = a1, rpos = 0\<rparr> = (Inr v1, r1, h1')"
    and "rpos r1 = int (length (h1 ! a1))"
    and "read_op op2 h2 \<lparr>rdv = a2, rpos = 0\<rparr> = (Inr v2, r2, h2')"
    and "0 \<le> rpos r2"
    and "a < length h" "h ! a = h1 ! a1 @ h2 ! a2"
  shows "\<exists>u1 ha u2 hb.
     read_op op1 h \<lparr>rdv = a, rpos = 0\<rparr> = (Inr u1, \<lparr>rdv = a, rpos = rpos r1\<rparr>, ha) \<and>
     contents ha u1 = contents h1' v1 \<and>
     read_op op2 ha \<lparr>rdv = a, rpos = rpos r1\<rparr> = (Inr u2, \<lparr>rdv = a, rpos = rpos r1 + rpos r2\<rparr>, hb) \<and>
     contents hb u2 = contents h2' v2"
proof -
  obtain u1 ha where 1: "read_op op1 h \<lparr>rdv = a, rpos = 0\<rparr> = (Inr u1, \<lparr>rdv = a, rpos = rpos r1\<rparr>, ha)"
    and c1: "contents ha u1 = contents h1' v1" and t: "take (length h) ha = h"
    using read_op_append[OF assms(1), of h a "h2 ! a2"] assms(2,6) by auto
  have "ha ! a = take (length h) ha ! a"
    using assms(5) by simp
  then have "ha ! a = h1 ! a1 @ h2 ! a2"
    using t assms(6) by simp
  then have pre: "ha ! a = h1 ! a1 @ h2 ! rdv \<lparr>rdv = a2, rpos = 0\<rparr>" by simp
  obtain u2 hb where 2: "read_op op2 ha \<lparr>rdv = a, rpos = rpos r1\<rparr> =
        (Inr u2, \<lparr>rdv = a, rpos = rpos r1 + rpos r2\<rparr>, hb)"
    and c2: "contents hb u2 = contents h2' v2"
    using read_op_prepend[OF assms(3,4) pre] assms(2) by (auto simp: add.commute)
  show ?thesis using 1 c1 2 c2 by blast
qed

subsection \<open>The cursor of the reader\<close>

lemma ruv_pos:
  "ruv h r = (Inr v, r') \<Longrightarrow>
   0 \<le> rpos r \<and> rpos r' = rpos r + int (uv_width (drop (nat (rpos r)) (h ! rdv r))) \<and>
   declared_length (drop (nat (rpos r)) (h ! rdv r)) = v"
  by (auto simp: ruv_eq declared_length_def split: if_splits option.splits dest: uv_decode_width)

lemma ruv_mono: "rpos r \<le> rpos (snd (ruv h r))"
  by (auto simp: ruv_eq split: option.splits)

lemma read_var_pos:
  assumes "read_op op h r = (Inr v, r', h')"
    and "op = Rbytes \<longrightarrow> 0 \<le> declared_length (drop (nat (rpos r)) (h ! rdv r))"
  shows "rpos r' = rpos r + int (rcount op (drop (nat (rpos r)) (h ! rdv r)))"
proof (cases "rwidth op")
  case (Some k)
  then have "rcount op (drop (nat (rpos r)) (h ! rdv r)) = k"
    by (cases op) simp_all
  then show ?thesis using read_fixed_pos[OF Some, of h r] assms(1) by simp
next
  case None
  then consider "op = Ruv" | "op = Riv" | "op = Rbytes" | "op = Rutf8"
    by (cases op) simp_all
  then show ?thesis
  proof cases
    case 1
    then show ?thesis using assms(1)
      by (auto simp: returning_def map_sum_Inr_iff split: prod.splits dest!: ruv_pos)
  next
    case 2
    then show ?thesis using assms(1)
      by (auto simp: returning_def riv_eq map_sum_Inr_iff split: prod.splits sum.splits dest!: ruv_pos)
  next
    case 3
    then show ?thesis using assms
      by (auto simp: rbytes_eq map_sum_Inr_iff split: prod.splits sum.splits dest!: ruv_pos)
  next
    case 4
    then show ?thesis using assms(1) by (simp add: returning_def rutf8_def)
  qed
qed

lemma read_mono:
  assumes "op = Rbytes \<longrightarrow> 0 \<le> declared_length (drop (nat (rpos r)) (h ! rdv r))"
  shows "rpos r \<le> rpos (fst (snd (read_op op h r)))"
proof (cases "rwidth op")
  case (Some k)
  then show ?thesis using read_fixed_pos[OF Some, of h r] by simp
next
  case None
  then consider "op = Ruv" | "op = Riv" | "op = Rbytes" | "op = Rutf8"
    by (cases op) simp_all
  then show ?thesis
  proof cases
    case 1
    then show ?thesis using ruv_mono[of r h]
      by (auto simp: returning_def split: prod.splits)
  next
    case 2
    then show ?thesis using ruv_mono[of r h]
      by (auto simp: returning_def riv_eq split: prod.splits sum.splits)
  next
    case 3
    then show ?thesis using assms ruv_mono[of r h]
      by (auto simp: rbytes_eq split: prod.splits sum.splits dest!: ruv_pos)
  next
    case 4
    then show ?thesis by (simp add: returning_def rutf8_def)
  qed
qed

subsection \<open>The cursor of the writer\<close>

lemma allocMin_wpos: "wpos (fst (snd (allocMin len s))) = wpos (fst s)"
  by (auto simp: allocMin_def Let_def new_ArrayBuffer_def split: prod.splits sum.splits)

lemma wdelayedMove_wpos: "wpos (fst (snd (wdelayedMove m s))) = wpos (fst s) + m"
proof -
  obtain w h where s: "s = (w, h)" by (cases s)
  show ?thesis
    using allocMin_wpos[of "wpos w + m" "(w\<lparr>wpos := wpos w + m\<rparr>, h)"]
    by (auto simp: s wdelayedMove_def Let_def split: prod.splits option.splits)
qed

lemma wfixed_wpos: "wpos (fst (snd (wfixed k setter s))) = wpos (fst s) + k"
  using wdelayedMove_wpos[of k s]
  by (auto simp: wfixed_def Let_def split: prod.splits sum.splits)

lemma wu8_wpos: "wpos (fst (snd (wu8 n s))) = wpos (fst s) + 1"
  by (simp add: wu8_def wfixed_wpos)

lemma wuv_loop_wpos:
  "wuv_loop c n s = (e, s') \<Longrightarrow>
   wpos (fst s) \<le> wpos (fst s') \<and> (e = None \<longrightarrow> wpos (fst s') = wpos (fst s) + c)"
proof (induction c arbitrary: s)
  case 0
  then show ?case by simp
next
  case (Suc c)
  let ?b = "uint (let byte = drop_bit ((c * 7) mod 32) (word_of_int n :: 32 word) AND 0x7F
                  in if c \<noteq> 0 then byte OR 0x80 else byte)"
  obtain e1 s1 where w: "wu8 ?b s = (e1, s1)" by (cases "wu8 ?b s")
  have p: "wpos (fst s1) = wpos (fst s) + 1"
    using wu8_wpos[of ?b s] w by simp
  show ?case
  proof (cases e1)
    case None
    then have "wuv_loop c n s1 = (e, s')"
      using Suc.prems w by (simp add: Let_def)
    from Suc.IH[OF this] p show ?thesis by auto
  next
    case (Some x)
    then have "e = Some x" "s' = s1"
      using Suc.prems w by (simp_all add: Let_def)
    then show ?thesis using p by simp
  qed
qed

lemma wuv_wpos:
  "wuv n s = (e, s') \<Longrightarrow>
   wpos (fst s) \<le> wpos (fst s') \<and> (e = None \<longrightarrow> wpos (fst s') = wpos (fst s) + wuv_byteLength n)"
  unfolding wuv_def by (rule wuv_loop_wpos)

lemma wbytes_wpos:
  assumes "wbytes arg (w, h) = (e, s')"
  shows "wpos w \<le> wpos (fst s') \<and>
     (e = None \<longrightarrow> wpos (fst s') = wpos w + wcount encode h (Wbytes arg))"
proof -
  obtain buffer h0 where nu: "new_Uint8Array arg h = (buffer, h0)"
    by (cases "new_Uint8Array arg h")
  define len where "len = byteLength h0 buffer"
  have len: "wuv_byteLength (int len) + len = wcount encode h (Wbytes arg)"
    using nu by (cases arg) (auto simp: new_Uint8Array_def len_def byteLength_def)
  obtain e1 s1 where u: "wuv (int len) (w, h0) = (e1, s1)" by (cases "wuv (int len) (w, h0)")
  note p1 = wuv_wpos[OF u]
  show ?thesis
  proof (cases e1)
    case (Some x)
    then show ?thesis using assms nu u p1
      by (auto simp: wbytes_def Let_def len_def)
  next
    case None
    obtain e2 w2 h2 where a: "allocMinExtra len s1 = (e2, w2, h2)"
      by (cases "allocMinExtra len s1") auto
    have p2: "wpos w2 = wpos (fst s1)"
      using allocMin_wpos[of "wpos (fst s1) + len" s1] a by (simp add: allocMinExtra_def)
    show ?thesis
      using assms nu u None a p1 p2 len
      by (auto simp: wbytes_def Let_def len_def[symmetric] split: option.splits sum.splits)
  qed
qed

lemma write_op_wpos:
  assumes "write_op encode wo (w, g) = (e, s')"
  shows "wpos w \<le> wpos (fst s') \<and>
     (e = None \<or> wwidth wo \<noteq> None \<longrightarrow> wpos (fst s') = wpos w + wcount encode g wo)"
proof (cases "wwidth wo")
  case (Some k)
  then have "wpos (fst (snd (write_op encode wo (w, g)))) = wpos w + k \<and> wcount encode g wo = k"
    by (cases wo)
       (simp_all add: wi8_def wi16_def wi32_def wi64_def wu8_def wu16_def wu32_def wu64_def
          wf32_def wf64_def wbool_def wchar_def wfixed_wpos)
  then show ?thesis using assms Some by simp
next
  case None
  then consider n where "wo = Wuv n" | n where "wo = Wiv n" | arg where "wo = Wbytes arg"
    | str where "wo = Wutf8 str"
    by (cases wo) simp_all
  then show ?thesis
  proof cases
    case 1
    then show ?thesis using assms wuv_wpos[of n "(w, g)" e s'] by simp
  next
    case 2
    then show ?thesis using assms
        wuv_wpos[of "sint (push_bit 1 (word_of_int \<bar>n\<bar> :: 32 word) OR (if n < 0 then 1 else 0))"
          "(w, g)" e s']
      by (simp add: wiv_def)
  next
    case 3
    then show ?thesis using assms wbytes_wpos[of arg w g e s' encode] by simp
  next
    case 4
    then show ?thesis using assms
        wbytes_wpos[of "TypedArray (length g)" w "g @ [encode str]" e s' encode]
      by (simp add: wutf8_def)
  qed
qed

lemma write_ops_wpos: "wpos (fst s) \<le> wpos (fst (write_ops encode wos s))"
proof (induction wos arbitrary: s)
  case Nil
  then show ?case by simp
next
  case (Cons x xs)
  obtain w g where s: "s = (w, g)" by (cases s)
  obtain e s' where r: "write_op encode x (w, g) = (e, s')" by (cases "write_op encode x (w, g)")
  have "wpos w \<le> wpos (fst s')" using write_op_wpos[OF r] by simp
  also have "\<dots> \<le> wpos (fst (write_ops encode xs s'))" by (rule Cons.IH)
  finally show ?case by (simp add: s r)
qed

subsection \<open>Cursor advancement\<close>

lemma wcount_fixed: "wwidth wo = Some j \<Longrightarrow> wcount encode g wo = j"
  by (cases wo) simp_all

text \<open>
  C7 as stated fails for \<^verbatim>\<open>rbytes\<close>. Over the two bytes 5 and 1 it consumes the two
  bytes of the buffer (the prefix and the one payload byte there is, returned in the
  buffer at address 1) and moves the cursor by 6, past the end. Over the five bytes
  0x88 0x80 0x80 0x80 0x00 the prefix decodes, as an Int32, to \<open>- 2 ^ 31\<close>, and the
  cursor moves from 0 to \<open>5 - 2 ^ 31\<close>: it decreases.
\<close>

theorem rbytes_cursor_not_the_bytes_read:
  "rbytes [[5, 1]] \<lparr>rdv = 0, rpos = 0\<rparr> = (Inr 1, \<lparr>rdv = 0, rpos = 6\<rparr>, [[5, 1], [1]]) \<and>
   rbytes [[0x88, 0x80, 0x80, 0x80, 0]] \<lparr>rdv = 0, rpos = 0\<rparr> =
     (Inr 1, \<lparr>rdv = 0, rpos = - 2147483643\<rparr>, [[0x88, 0x80, 0x80, 0x80, 0], []])"
  by (simp add: rbytes_def dv_defs r_defs Let_def)

text \<open>
  C7, amended. For every operation of the reader, from every state:
  a fixed-width operation moves the cursor by its width, whether it returns or raises;
  an operation that returns moves the cursor by \<open>rcount\<close> (the width; for a varint the
  number of bytes up to and including the first without the continuation bit; for
  \<^verbatim>\<open>rbytes\<close> with a non-negative declared length that number plus the declared
  length, also when the buffer holds fewer bytes); the cursor does not decrease, unless
  the operation is \<^verbatim>\<open>rbytes\<close> with a negative declared length.
  For every operation of the writer, from every state: a fixed-width operation moves the
  cursor by its width, whether it returns or raises; an operation that raises nothing
  moves the cursor by \<open>wcount\<close>; the cursor does not decrease, in one operation and
  over any sequence of operations.
  Reads compose: when \<open>op1\<close> read from the start of one buffer returns and ends
  exactly at its end, and \<open>op2\<close> read from the start of a second buffer returns with a
  non-negative cursor, then over a buffer holding the bytes of the first followed by
  those of the second, \<open>op1\<close> and then \<open>op2\<close> return values with the same contents,
  and the cursor ends at the sum of the two.
\<close>

theorem cursor_advance:
  assumes "read_op op h r = (res, r', h')"
    and "write_op encode wo (w, g) = (e, w', g')"
  shows
   "(rwidth op = Some k \<longrightarrow> rpos r' = rpos r + int k) \<and>
    ((\<exists>v. res = Inr v) \<and>
       (op = Rbytes \<longrightarrow> 0 \<le> declared_length (drop (nat (rpos r)) (h ! rdv r)))
       \<longrightarrow> rpos r' = rpos r + int (rcount op (drop (nat (rpos r)) (h ! rdv r)))) \<and>
    ((op = Rbytes \<longrightarrow> 0 \<le> declared_length (drop (nat (rpos r)) (h ! rdv r)))
       \<longrightarrow> rpos r \<le> rpos r') \<and>
    (wwidth wo = Some j \<longrightarrow> wpos w' = wpos w + j) \<and>
    (e = None \<longrightarrow> wpos w' = wpos w + wcount encode g wo) \<and>
    wpos w \<le> wpos w' \<and>
    wpos w \<le> wpos (fst (write_ops encode wos (w, g))) \<and>
    (read_op op1 h1 \<lparr>rdv = a1, rpos = 0\<rparr> = (Inr v1, r1, h1') \<and>
     rpos r1 = int (length (h1 ! a1)) \<and>
     read_op op2 h2 \<lparr>rdv = a2, rpos = 0\<rparr> = (Inr v2, r2, h2') \<and> 0 \<le> rpos r2 \<and>
     a < length hc \<and> hc ! a = h1 ! a1 @ h2 ! a2
     \<longrightarrow> (\<exists>u1 ha u2 hb.
           read_op op1 hc \<lparr>rdv = a, rpos = 0\<rparr> = (Inr u1, \<lparr>rdv = a, rpos = rpos r1\<rparr>, ha) \<and>
           contents ha u1 = contents h1' v1 \<and>
           read_op op2 ha \<lparr>rdv = a, rpos = rpos r1\<rparr> =
             (Inr u2, \<lparr>rdv = a, rpos = rpos r1 + rpos r2\<rparr>, hb) \<and>
           contents hb u2 = contents h2' v2))"
proof -
  have 1: "rwidth op = Some k \<longrightarrow> rpos r' = rpos r + int k"
    using read_fixed_pos[of op k h r] assms(1) by simp
  have 2: "(\<exists>v. res = Inr v) \<and>
       (op = Rbytes \<longrightarrow> 0 \<le> declared_length (drop (nat (rpos r)) (h ! rdv r)))
       \<longrightarrow> rpos r' = rpos r + int (rcount op (drop (nat (rpos r)) (h ! rdv r)))"
    using read_var_pos[of op h r _ r' h'] assms(1) by auto
  have 3: "(op = Rbytes \<longrightarrow> 0 \<le> declared_length (drop (nat (rpos r)) (h ! rdv r)))
       \<longrightarrow> rpos r \<le> rpos r'"
    using read_mono[of op r h] assms(1) by simp
  note w = write_op_wpos[OF assms(2)]
  have 4: "wwidth wo = Some j \<longrightarrow> wpos w' = wpos w + j"
    using w wcount_fixed[of wo j encode g] by auto
  have 5: "e = None \<longrightarrow> wpos w' = wpos w + wcount encode g wo"
    using w by simp
  have 6: "wpos w \<le> wpos w'" using w by simp
  have 7: "wpos w \<le> wpos (fst (write_ops encode wos (w, g)))"
    using write_ops_wpos[of "(w, g)" encode wos] by simp
  have 8: "read_op op1 h1 \<lparr>rdv = a1, rpos = 0\<rparr> = (Inr v1, r1, h1') \<and>
     rpos r1 = int (length (h1 ! a1)) \<and>
     read_op op2 h2 \<lparr>rdv = a2, rpos = 0\<rparr> = (Inr v2, r2, h2') \<and> 0 \<le> rpos r2 \<and>
     a < length hc \<and> hc ! a = h1 ! a1 @ h2 ! a2
     \<longrightarrow> (\<exists>u1 ha u2 hb.
           read_op op1 hc \<lparr>rdv = a, rpos = 0\<rparr> = (Inr u1, \<lparr>rdv = a, rpos = rpos r1\<rparr>, ha) \<and>
           contents ha u1 = contents h1' v1 \<and>
           read_op op2 ha \<lparr>rdv = a, rpos = rpos r1\<rparr> =
             (Inr u2, \<lparr>rdv = a, rpos = rpos r1 + rpos r2\<rparr>, hb) \<and>
           contents hb u2 = contents h2' v2)"
    using read_compose[of op1 h1 a1 v1 r1 h1' op2 h2 a2 v2 r2 h2' a hc] by blast
  show ?thesis
    using 1 2 3 4 5 6 7 8 by (intro conjI)
qed


theorem cursor_advance_witness:
  "rpos (fst (snd (read_op Ru16 [[1, 2]] \<lparr>rdv = 0, rpos = 0\<rparr>))) = 2 \<and>
   rpos (fst (snd (read_op Ruv [[0x82, 0x2C]] \<lparr>rdv = 0, rpos = 0\<rparr>))) = 2 \<and>
   wpos (fst (snd (wu16 5 (SerialWriter_new None [])))) = 2 \<and>
   wpos (fst (snd (wuv 300 (SerialWriter_new None [])))) = 2 \<and>
   (\<exists>u1 ha u2 hb.
      read_op Ru8 [[7, 0x82, 0x2C]] \<lparr>rdv = 0, rpos = 0\<rparr> = (Inr u1, \<lparr>rdv = 0, rpos = 1\<rparr>, ha) \<and>
      contents ha u1 = Inl (Num 7) \<and>
      read_op Ruv ha \<lparr>rdv = 0, rpos = 1\<rparr> = (Inr u2, \<lparr>rdv = 0, rpos = 3\<rparr>, hb) \<and>
      contents hb u2 = Inl (Num 300))"
proof -
  define r0 where "r0 = \<lparr>rdv = 0, rpos = 0\<rparr>"
  define w0 where "w0 = \<lparr>wdv = 1, wpos = 0\<rparr>"
  define g0 :: heap where "g0 = [[0, 0, 0, 0, 0, 0, 0, 0], [0, 0, 0, 0, 0, 0, 0, 0]]"
  define enc :: "js_string \<Rightarrow> byte list" where "enc = map of_nat"
  have new: "SerialWriter_new None [] = (w0, g0)"
    by (simp add: w_defs dv_defs Let_def w0_def g0_def)
  have ru8: "read_op Ru8 [[7]] r0 = (Inr (Num 7), \<lparr>rdv = 0, rpos = 1\<rparr>, [[7]])"
    by (simp add: r0_def returning_def ru8_in_range)
  have ruv: "read_op Ruv [[0x82, 0x2C]] r0 = (Inr (Num 300), \<lparr>rdv = 0, rpos = 2\<rparr>, [[0x82, 0x2C]])"
    by (simp add: r0_def returning_def ruv_eq)
  have wuv: "write_op enc (Wuv 300) (w0, g0) =
      (None, \<lparr>wdv = 1, wpos = 2\<rparr>, [[0, 0, 0, 0, 0, 0, 0, 0], [0x82, 0x2C, 0, 0, 0, 0, 0, 0]])"
    by (simp add: w_defs dv_defs Let_def w0_def g0_def)
  have rd1: "read_op Ru16 [[1, 2]] r0 =
      (fst (read_op Ru16 [[1, 2]] r0), fst (snd (read_op Ru16 [[1, 2]] r0)),
       snd (snd (read_op Ru16 [[1, 2]] r0)))"
    by simp
  have wr1: "write_op enc (Wu16 5) (w0, g0) =
      (fst (wu16 5 (w0, g0)), fst (snd (wu16 5 (w0, g0))), snd (snd (wu16 5 (w0, g0))))"
    by simp
  have hyp: "read_op Ru8 [[7]] \<lparr>rdv = 0, rpos = 0\<rparr> = (Inr (Num 7), \<lparr>rdv = 0, rpos = 1\<rparr>, [[7]]) \<and>
     rpos \<lparr>rdv = 0, rpos = 1\<rparr> = int (length ([[7 :: byte]] ! 0)) \<and>
     read_op Ruv [[0x82, 0x2C]] \<lparr>rdv = 0, rpos = 0\<rparr> =
       (Inr (Num 300), \<lparr>rdv = 0, rpos = 2\<rparr>, [[0x82, 0x2C]]) \<and>
     0 \<le> rpos \<lparr>rdv = 0, rpos = 2\<rparr> \<and>
     0 < length [[7 :: byte, 0x82, 0x2C]] \<and>
     [[7 :: byte, 0x82, 0x2C]] ! 0 = [[7]] ! 0 @ [[0x82, 0x2C]] ! 0"
    using ru8 ruv by (simp add: r0_def)
  note i1 = cursor_advance[OF rd1 wr1, where k = 2 and j = 2 and wos = "[]"
      and ?op1.0 = Ru8 and ?h1.0 = "[[7]]" and ?a1.0 = 0 and ?v1.0 = "Num 7"
      and ?r1.0 = "\<lparr>rdv = 0, rpos = 1\<rparr>" and h1' = "[[7]]"
      and ?op2.0 = Ruv and ?h2.0 = "[[0x82, 0x2C]]" and ?a2.0 = 0 and ?v2.0 = "Num 300"
      and ?r2.0 = "\<lparr>rdv = 0, rpos = 2\<rparr>" and h2' = "[[0x82, 0x2C]]"
      and a = 0 and hc = "[[7, 0x82, 0x2C]]"]
  note i2 = cursor_advance[OF ruv wuv, where k = 2 and j = 2 and wos = "[]"
      and ?op1.0 = Ru8 and ?h1.0 = "[[7]]" and ?a1.0 = 0 and ?v1.0 = "Num 7"
      and ?r1.0 = "\<lparr>rdv = 0, rpos = 1\<rparr>" and h1' = "[[7]]"
      and ?op2.0 = Ruv and ?h2.0 = "[[0x82, 0x2C]]" and ?a2.0 = 0 and ?v2.0 = "Num 300"
      and ?r2.0 = "\<lparr>rdv = 0, rpos = 2\<rparr>" and h2' = "[[0x82, 0x2C]]"
      and a = 0 and hc = "[[7, 0x82, 0x2C]]"]
  have a: "rpos (fst (snd (read_op Ru16 [[1, 2]] r0))) = 2"
    using i1 by (simp add: r0_def)
  have b: "wpos (fst (snd (wu16 5 (w0, g0)))) = 2"
    using i1 by (simp add: w0_def)
  have c: "rpos (fst (snd (read_op Ruv [[0x82, 0x2C]] r0))) = 2"
    unfolding ruv by simp
  have d: "wpos (fst (snd (wuv 300 (w0, g0)))) = 2"
    using wuv by simp
  have e: "\<exists>u1 ha u2 hb.
      read_op Ru8 [[7, 0x82, 0x2C]] \<lparr>rdv = 0, rpos = 0\<rparr> = (Inr u1, \<lparr>rdv = 0, rpos = 1\<rparr>, ha) \<and>
      contents ha u1 = Inl (Num 7) \<and>
      read_op Ruv ha \<lparr>rdv = 0, rpos = 1\<rparr> = (Inr u2, \<lparr>rdv = 0, rpos = 3\<rparr>, hb) \<and>
      contents hb u2 = Inl (Num 300)"
    using i2 hyp by (simp add: contents_def)
  show ?thesis
    using a b c d e by (simp add: new r0_def)
qed

subsection \<open>The states of the writer\<close>

lemma allocMin_eq:
  assumes "wdv w < length h"
  shows "allocMin len (w, h) =
     (None,
      if len \<ge> length (h ! wdv w)
      then (w\<lparr>wdv := length h\<rparr>,
            h @ [h ! wdv w @ replicate (max len (length (h ! wdv w) * 2) - length (h ! wdv w)) 0])
      else (w, h))"
  using assms
  by (auto simp: allocMin_def new_ArrayBuffer_def dv_store_def byteLength_def Let_def nth_append)

lemma wdelayedMove_eq:
  assumes "wdv w < length h"
  shows "wdelayedMove m (w, h) =
     (Inr (wpos w),
      if wpos w + m \<ge> length (h ! wdv w)
      then (w\<lparr>wpos := wpos w + m, wdv := length h\<rparr>,
            h @ [h ! wdv w @ replicate (max (wpos w + m) (length (h ! wdv w) * 2) - length (h ! wdv w)) 0])
      else (w\<lparr>wpos := wpos w + m\<rparr>, h))"
  using assms by (simp add: wdelayedMove_def Let_def allocMin_eq)

lemma wvalid_lengths:
  "map length h' = map length h \<Longrightarrow> wvalid (w, h') = wvalid (w, h)"
proof -
  assume a: "map length h' = map length h"
  then have l: "length h' = length h" by (metis length_map)
  have "wdv w < length h \<Longrightarrow> length (h' ! wdv w) = length (h ! wdv w)"
    using a l by (metis nth_map)
  then show ?thesis by (auto simp: wvalid_def byteLength_def l)
qed

lemma dv_store_lengths: "dv_store h a i bs = Inr h' \<Longrightarrow> map length h' = map length h"
proof -
  assume s: "dv_store h a i bs = Inr h'"
  then have le: "i + length bs \<le> length (h ! a)"
    and h': "h' = h[a := take i (h ! a) @ bs @ drop (i + length bs) (h ! a)]"
    by (auto simp: dv_store_def byteLength_def split: if_splits)
  have "map length h' = (map length h)[a := length (h ! a)]"
    using le by (simp add: h' map_update)
  also have "\<dots> = map length h"
  proof (cases "a < length h")
    case True
    then have "length (h ! a) = map length h ! a" by simp
    then show ?thesis by (simp only: list_update_id)
  next
    case False
    then have "length (map length h) \<le> a" by simp
    then show ?thesis by (rule list_update_beyond)
  qed
  finally show ?thesis .
qed


lemma wvalid_append: "wvalid (w, h) \<Longrightarrow> wvalid (w, h @ [x])"
  by (simp add: wvalid_def byteLength_def nth_append)

lemma grown_refl: "grown h h"
  by (simp add: grown_def)

lemma grown_length: "grown h h' \<Longrightarrow> length h \<le> length h'"
proof -
  assume "grown h h'"
  then have "length (take (length h) (map length h')) = length (map length h)"
    by (simp only: grown_def)
  then show ?thesis by simp
qed

lemma grown_nth: "grown h h' \<Longrightarrow> b < length h \<Longrightarrow> length (h' ! b) = length (h ! b)"
proof -
  assume g: "grown h h'" and b: "b < length h"
  have "length (h' ! b) = map length h' ! b"
    using b grown_length[OF g] by simp
  also have "\<dots> = take (length h) (map length h') ! b"
    using b by simp
  also have "\<dots> = length (h ! b)"
    using g b by (simp add: grown_def)
  finally show ?thesis .
qed

lemma grown_trans: "grown h h' \<Longrightarrow> grown h' h'' \<Longrightarrow> grown h h''"
proof -
  assume a: "grown h h'" and b: "grown h' h''"
  have "take (length h) (map length h'') = take (length h) (take (length h') (map length h''))"
    using grown_length[OF a] by (simp add: min_def)
  also have "\<dots> = take (length h) (map length h')"
    using b by (simp only: grown_def)
  also have "\<dots> = map length h"
    using a by (simp only: grown_def)
  finally show ?thesis by (simp add: grown_def)
qed

lemma grown_append: "grown h (h @ xs)"
  by (simp add: grown_def)

lemma grown_lengths: "map length h' = map length h \<Longrightarrow> grown h h'"
  by (metis grown_def length_map order_refl take_all)

lemma allocMin_valid:
  assumes "wdv w < length h" "allocMin len (w, h) = (e, w', h')"
  shows "e = None \<and> wdv w' < length h' \<and> len \<le> length (h' ! wdv w') \<and>
         length (h ! wdv w) \<le> length (h' ! wdv w') \<and> wpos w' = wpos w \<and> grown h h'"
  using assms unfolding allocMin_eq[OF assms(1)]
  by (auto simp: nth_append grown_append grown_refl split: if_splits)

lemma wdelayedMove_valid:
  assumes "wdv w < length h" "wdelayedMove m (w, h) = (res, w', h')"
  shows "wvalid (w', h') \<and> res = Inr (wpos w) \<and> wpos w' = wpos w + m \<and> grown h h'"
  using assms unfolding wdelayedMove_eq[OF assms(1)]
  by (auto simp: wvalid_def byteLength_def nth_append grown_append grown_refl split: if_splits)

lemma wfixed_valid:
  assumes "wvalid (w, h)"
    and "\<And>g a i g'. setter g a i = Inr g' \<Longrightarrow> map length g' = map length g"
  shows "wvalid (snd (wfixed k setter (w, h))) \<and> grown h (snd (snd (wfixed k setter (w, h))))"
proof -
  have v: "wdv w < length h" using assms(1) by (simp add: wvalid_def)
  obtain res w' h' where d: "wdelayedMove k (w, h) = (res, w', h')"
    by (cases "wdelayedMove k (w, h)") auto
  note f = wdelayedMove_valid[OF v d]
  show ?thesis
  proof (cases "setter h' (wdv w) (wpos w)")
    case (Inl e)
    then show ?thesis using d f by (simp add: wfixed_def)
  next
    case (Inr h'')
    have "wvalid (w', h'')"
      using wvalid_lengths[OF assms(2)[OF Inr]] f by simp
    moreover have "grown h h''"
      using grown_trans[OF _ grown_lengths[OF assms(2)[OF Inr]]] f by simp
    ultimately show ?thesis using d f Inr by (simp add: wfixed_def)
  qed
qed

lemma wu8_valid:
  "wvalid s \<Longrightarrow> wvalid (snd (wu8 n s)) \<and> grown (snd s) (snd (snd (wu8 n s)))"
  by (cases s) (simp add: wu8_def setUint8_def wfixed_valid dv_store_lengths)

lemma wuv_loop_valid:
  "wvalid s \<Longrightarrow> wvalid (snd (wuv_loop c n s)) \<and> grown (snd s) (snd (snd (wuv_loop c n s)))"
proof (induction c arbitrary: s)
  case 0
  then show ?case by (simp add: grown_refl)
next
  case (Suc c)
  let ?b = "uint (let byte = drop_bit ((c * 7) mod 32) (word_of_int n :: 32 word) AND 0x7F
                  in if c \<noteq> 0 then byte OR 0x80 else byte)"
  note v = wu8_valid[OF Suc.prems, of ?b]
  show ?case
  proof (cases "fst (wu8 ?b s)")
    case None
    then show ?thesis using Suc.IH[of "snd (wu8 ?b s)"] v
      by (cases "wu8 ?b s") (auto simp: Let_def intro: grown_trans)
  next
    case (Some x)
    then show ?thesis using v
      by (cases "wu8 ?b s") (simp add: Let_def)
  qed
qed

lemma wuv_valid:
  "wvalid s \<Longrightarrow> wvalid (snd (wuv n s)) \<and> grown (snd s) (snd (snd (wuv n s)))"
  by (simp add: wuv_def wuv_loop_valid)


lemma wbytes_valid:
  assumes "wvalid (w, h)" "source_in h (Wbytes arg)"
  shows "wvalid (snd (wbytes arg (w, h))) \<and> grown h (snd (snd (wbytes arg (w, h))))"
proof -
  obtain buffer h0 where nu: "new_Uint8Array arg h = (buffer, h0)"
    by (cases "new_Uint8Array arg h")
  have b: "buffer < length h0" and g0: "grown h h0" and v0: "wvalid (w, h0)"
    using nu assms
    by (cases arg; auto simp: new_Uint8Array_def source_in_def grown_append grown_refl wvalid_append)+
  define len where "len = byteLength h0 buffer"
  obtain e1 w1 h1 where u: "wuv (int len) (w, h0) = (e1, w1, h1)"
    by (cases "wuv (int len) (w, h0)") auto
  have v1: "wvalid (w1, h1)" and g1: "grown h0 h1"
    using wuv_valid[OF v0, of "int len"] u by simp_all
  show ?thesis
  proof (cases e1)
    case (Some x)
    then show ?thesis
      using nu u v1 grown_trans[OF g0 g1] by (simp add: wbytes_def Let_def len_def)
  next
    case None
    have a1: "wdv w1 < length h1" using v1 by (simp add: wvalid_def)
    obtain e2 w2 h2 where a: "allocMin (wpos w1 + len) (w1, h1) = (e2, w2, h2)"
      by (cases "allocMin (wpos w1 + len) (w1, h1)") auto
    note f = allocMin_valid[OF a1 a]
    have g2: "grown h0 h2" using grown_trans[OF g1] f by simp
    have l: "length (h2 ! buffer) = len"
      using grown_nth[OF g2 b] by (simp add: len_def byteLength_def)
    obtain h3 where st: "dv_store h2 (wdv w2) (wpos w2) (h2 ! buffer) = Inr h3"
      using f l by (auto simp: dv_store_def byteLength_def)
    have m: "map length h3 = map length h2" by (rule dv_store_lengths[OF st])
    have "wvalid (w2\<lparr>wpos := wpos w2 + len\<rparr>, h2)"
      using f by (simp add: wvalid_def byteLength_def)
    then have v3: "wvalid (w2\<lparr>wpos := wpos w2 + len\<rparr>, h3)"
      using wvalid_lengths[OF m] by simp
    have g3: "grown h h3"
      using grown_trans[OF grown_trans[OF g0 g2] grown_lengths[OF m]] .
    show ?thesis
      using nu u None a f st v3 g3
      by (simp add: wbytes_def Let_def len_def[symmetric] allocMinExtra_def)
  qed
qed

lemma be_bytes_length [simp]: "length (be_bytes k x) = k"
  by (simp add: be_bytes_def)

lemma write_op_valid:
  assumes "wvalid s" "source_in (snd s) wo"
  shows "wvalid (snd (write_op encode wo s)) \<and> grown (snd s) (snd (snd (write_op encode wo s)))"
proof -
  obtain w h where s: "s = (w, h)" by (cases s)
  have v: "wvalid (w, h)" using assms(1) s by simp
  show ?thesis
  proof (cases wo)
    case (Wbytes arg)
    then show ?thesis using wbytes_valid[OF v, of arg] assms(2) s by simp
  next
    case (Wutf8 str)
    have "wvalid (w, h @ [encode str])" by (rule wvalid_append[OF v])
    from wbytes_valid[OF this, of "TypedArray (length h)"]
    show ?thesis
      using grown_trans[OF grown_append[of h "[encode str]"]]
      by (auto simp: Wutf8 s wutf8_def source_in_def)
  next
    case (Wuv n)
    then show ?thesis using wuv_valid[OF v, of n] s by simp
  next
    case (Wi64 n)
    then show ?thesis using wfixed_valid[OF v, of "\<lambda>h a i. Inl TypeError" 8]
      by (simp add: s wi64_def)
  next
    case (Wu64 n)
    then show ?thesis using wfixed_valid[OF v, of "\<lambda>h a i. Inl TypeError" 8]
      by (simp add: s wu64_def)
  next
    case (Wiv n)
    then show ?thesis
      using wuv_valid[OF v, of "sint (push_bit 1 (word_of_int \<bar>n\<bar> :: 32 word) OR (if n < 0 then 1 else 0))"] s
      by (simp add: wiv_def)
  qed (simp_all add: s wi8_def wi16_def wi32_def wi64_def wu8_def wu16_def wu32_def wu64_def
        wf32_def wf64_def wbool_def wchar_def setInt8_def setInt16_def setInt32_def setUint8_def
        setUint16_def setUint32_def setFloat32_def setFloat64_def
        wfixed_valid[OF v] dv_store_lengths)
qed

lemma SerialWriter_new_valid:
  "wvalid (SerialWriter_new None h)" "b < length h \<Longrightarrow> wvalid (SerialWriter_new (Some b) h)"
  by (simp_all add: SerialWriter_new_def new_ArrayBuffer_def ab_slice_def clamp_index_def
      byteLength_def wvalid_def Let_def nth_append)

lemma source_in_grown: "source_in h wo \<Longrightarrow> grown h h' \<Longrightarrow> source_in h' wo"
  using grown_length[of h h']
  by (auto simp: source_in_def split: wop.splits bytes_arg.splits)

lemma write_ops_valid:
  "wvalid s \<Longrightarrow> (\<forall>wo\<in>set wos. source_in (snd s) wo) \<Longrightarrow> wvalid (write_ops encode wos s)"
proof (induction wos arbitrary: s)
  case Nil
  then show ?case by simp
next
  case (Cons x xs)
  have v: "wvalid (snd (write_op encode x s))"
    and g: "grown (snd s) (snd (snd (write_op encode x s)))"
    using write_op_valid[OF Cons.prems(1), of x encode] Cons.prems(2) by simp_all
  have "\<forall>wo\<in>set xs. source_in (snd (snd (write_op encode x s))) wo"
    using Cons.prems(2) source_in_grown[OF _ g] by simp
  from Cons.IH[OF v this] show ?case by simp
qed

subsection \<open>The writer in a store with one buffer more\<close>

lemma length_ins [simp]: "length (ins n x h) = Suc (length h)"
  by (simp add: ins_def)

lemma ins_append: "n \<le> length h \<Longrightarrow> ins n x (h @ ys) = ins n x h @ ys"
  by (simp add: ins_def)

lemma ins_nth: "a < length h \<Longrightarrow> ins n x h ! sh n a = h ! a"
  by (auto simp: ins_def sh_def nth_append min_def Suc_diff_le)

lemma ins_update: "a < length h \<Longrightarrow> ins n x (h[a := v]) = (ins n x h)[sh n a := v]"
proof (cases "a < n")
  case True
  assume "a < length h"
  then show ?thesis using True
    by (simp add: ins_def sh_def list_update_append take_update_swap drop_update_cancel)
next
  case False
  assume a: "a < length h"
  have t: "take n (h[a := v]) = take n h"
    using False by (simp add: take_update_cancel)
  have d: "drop n (h[a := v]) = (drop n h)[a - n := v]"
    using False by (simp add: drop_update_swap)
  show ?thesis
    using False a by (simp add: ins_def sh_def t d list_update_append min_def Suc_diff_le)
qed

lemma sh_length: "n \<le> length h \<Longrightarrow> sh n (length h) = Suc (length h)"
  by (simp add: sh_def)

lemma sh_less: "a < length h \<Longrightarrow> sh n a < Suc (length h)"
  by (simp add: sh_def)

lemma dv_store_up:
  "a < length h \<Longrightarrow>
   dv_store (ins n x h) (sh n a) i bs = map_sum id (ins n x) (dv_store h a i bs)"
  by (simp add: dv_store_def byteLength_def ins_nth ins_update)


lemma allocMin_up:
  assumes "wdv w < length h" "n \<le> length h"
  shows "allocMin len (up n x (w, h)) = map_prod id (up n x) (allocMin len (w, h))"
proof -
  have 1: "wdv (w\<lparr>wdv := sh n (wdv w)\<rparr>) < length (ins n x h)"
    using assms(1) by (simp add: sh_less)
  show ?thesis
    unfolding up_def prod.case allocMin_eq[OF 1] allocMin_eq[OF assms(1)]
    using assms by (simp add: ins_nth ins_append sh_length up_def)
qed

lemma wdelayedMove_up:
  assumes "wdv w < length h" "n \<le> length h"
  shows "wdelayedMove m (up n x (w, h)) = map_prod id (up n x) (wdelayedMove m (w, h))"
proof -
  have 1: "wdv (w\<lparr>wdv := sh n (wdv w)\<rparr>) < length (ins n x h)"
    using assms(1) by (simp add: sh_less)
  show ?thesis
    unfolding up_def prod.case wdelayedMove_eq[OF 1] wdelayedMove_eq[OF assms(1)]
    using assms by (simp add: ins_nth ins_append sh_length up_def)
qed

lemma wfixed_up:
  assumes "wvalid (w, h)" "n \<le> length h"
    and "\<And>g a i. a < length g \<Longrightarrow>
           setter (ins n x g) (sh n a) i = map_sum id (ins n x) (setter g a i)"
  shows "wfixed k setter (up n x (w, h)) = map_prod id (up n x) (wfixed k setter (w, h))"
proof -
  have v: "wdv w < length h" using assms(1) by (simp add: wvalid_def)
  obtain res w' h' where d: "wdelayedMove k (w, h) = (res, w', h')"
    by (cases "wdelayedMove k (w, h)") auto
  note f = wdelayedMove_valid[OF v d]
  have d': "wdelayedMove k (up n x (w, h)) = (Inr (wpos w), up n x (w', h'))"
    using wdelayedMove_up[OF v assms(2), of k x] d f by simp
  have o: "wdv w < length h'"
    using v grown_length[of h h'] f by simp
  show ?thesis
    using d d' f assms(3)[OF o, of "wpos w"]
    by (cases "setter h' (wdv w) (wpos w)") (simp_all add: wfixed_def up_def)
qed

lemma wu8_up:
  assumes "wvalid s" "n \<le> length (snd s)"
  shows "wu8 b (up n x s) = map_prod id (up n x) (wu8 b s)"
  using assms by (cases s) (simp add: wu8_def setUint8_def wfixed_up dv_store_up)

lemma wuv_loop_up:
  assumes "wvalid s" "n \<le> length (snd s)"
  shows "wuv_loop c m (up n x s) = map_prod id (up n x) (wuv_loop c m s)"
  using assms
proof (induction c arbitrary: s)
  case 0
  then show ?case by simp
next
  case (Suc c)
  let ?b = "uint (let byte = drop_bit ((c * 7) mod 32) (word_of_int m :: 32 word) AND 0x7F
                  in if c \<noteq> 0 then byte OR 0x80 else byte)"
  obtain e1 s1 where w: "wu8 ?b s = (e1, s1)" by (cases "wu8 ?b s")
  have w': "wu8 ?b (up n x s) = (e1, up n x s1)"
    using wu8_up[OF Suc.prems, of ?b x] w by simp
  have v1: "wvalid s1" and l1: "n \<le> length (snd s1)"
    using wu8_valid[OF Suc.prems(1), of ?b] w Suc.prems(2) grown_length[of "snd s" "snd s1"]
    by auto
  show ?case
  proof (cases e1)
    case None
    then show ?thesis using w w' Suc.IH[OF v1 l1] by (simp add: Let_def)
  next
    case (Some e)
    then show ?thesis using w w' by (simp add: Let_def)
  qed
qed

lemma wuv_up:
  "wvalid s \<Longrightarrow> n \<le> length (snd s) \<Longrightarrow>
   wuv m (up n x s) = map_prod id (up n x) (wuv m s)"
  by (simp add: wuv_def wuv_loop_up)


lemma wbytes_ArrayBuffer_up:
  assumes "wvalid (w, h)" "n \<le> length h" "a < length h"
  shows "wbytes (ArrayBuffer (sh n a)) (up n x (w, h)) =
         map_prod id (up n x) (wbytes (ArrayBuffer a) (w, h))"
proof -
  define len where "len = length (h ! a)"
  obtain e1 w1 h1 where u: "wuv (int len) (w, h) = (e1, w1, h1)"
    by (cases "wuv (int len) (w, h)") auto
  have u': "wuv (int len) (up n x (w, h)) = (e1, up n x (w1, h1))"
    using wuv_up[OF assms(1), of n "int len" x] assms(2) u by simp
  have v1: "wvalid (w1, h1)" and g1: "grown h h1"
    using wuv_valid[OF assms(1), of "int len"] u by simp_all
  have l1: "n \<le> length h1" "a < length h1"
    using grown_length[OF g1] assms(2,3) by simp_all
  have a1: "wdv w1 < length h1" using v1 by (simp add: wvalid_def)
  obtain e2 w2 h2 where al: "allocMin (wpos w1 + len) (w1, h1) = (e2, w2, h2)"
    by (cases "allocMin (wpos w1 + len) (w1, h1)") auto
  note f = allocMin_valid[OF a1 al]
  have al': "allocMin (wpos w1 + len) (up n x (w1, h1)) = (e2, up n x (w2, h2))"
    using allocMin_up[OF a1 l1(1), of "wpos w1 + len" x] al by simp
  have l2: "a < length h2" using grown_length[of h1 h2] f l1 by simp
  have st: "dv_store (ins n x h2) (sh n (wdv w2)) (wpos w2) (ins n x h2 ! sh n a) =
      map_sum id (ins n x) (dv_store h2 (wdv w2) (wpos w2) (h2 ! a))"
    using f l2 by (simp add: dv_store_up ins_nth)
  have lhs: "wbytes (ArrayBuffer (sh n a)) (up n x (w, h)) =
      (case e1 of Some e \<Rightarrow> (Some e, up n x (w1, h1))
       | None \<Rightarrow>
         (case dv_store (ins n x h2) (sh n (wdv w2)) (wpos w2) (ins n x h2 ! sh n a) of
            Inl e \<Rightarrow> (Some e, up n x (w2, h2))
          | Inr h3 \<Rightarrow> (None, w2\<lparr>wdv := sh n (wdv w2), wpos := wpos w2 + len\<rparr>, h3)))"
    using u' al' f assms(3)
    by (auto simp: wbytes_def new_Uint8Array_def up_def byteLength_def ins_nth len_def
        allocMinExtra_def Let_def split: option.splits sum.splits)
  have rhs: "wbytes (ArrayBuffer a) (w, h) =
      (case e1 of Some e \<Rightarrow> (Some e, (w1, h1))
       | None \<Rightarrow>
         (case dv_store h2 (wdv w2) (wpos w2) (h2 ! a) of
            Inl e \<Rightarrow> (Some e, (w2, h2))
          | Inr h3 \<Rightarrow> (None, w2\<lparr>wpos := wpos w2 + len\<rparr>, h3)))"
    using u al f
    by (auto simp: wbytes_def new_Uint8Array_def byteLength_def len_def
        allocMinExtra_def Let_def split: option.splits sum.splits)
  show ?thesis
    unfolding lhs rhs st
    by (cases e1; cases "dv_store h2 (wdv w2) (wpos w2) (h2 ! a)") (simp_all add: up_def)
qed

lemma wbytes_TypedArray:
  "wbytes (TypedArray a) (w, h) = wbytes (ArrayBuffer (length h)) (w, h @ [h ! a])"
  by (simp add: wbytes_def new_Uint8Array_def)

lemma wbytes_TypedArray_up:
  assumes "wvalid (w, h)" "n \<le> length h" "a < length h"
  shows "wbytes (TypedArray (sh n a)) (up n x (w, h)) =
         map_prod id (up n x) (wbytes (TypedArray a) (w, h))"
proof -
  have "wbytes (TypedArray (sh n a)) (up n x (w, h)) =
      wbytes (ArrayBuffer (sh n (length h))) (up n x (w, h @ [h ! a]))"
    using assms(2,3) by (simp add: up_def wbytes_TypedArray ins_nth ins_append sh_length)
  also have "\<dots> = map_prod id (up n x) (wbytes (ArrayBuffer (length h)) (w, h @ [h ! a]))"
    using assms(2) by (intro wbytes_ArrayBuffer_up wvalid_append[OF assms(1)]) simp_all
  finally show ?thesis by (simp add: wbytes_TypedArray)
qed

lemma wutf8_up:
  assumes "wvalid (w, h)" "n \<le> length h"
  shows "wutf8 encode str (up n x (w, h)) = map_prod id (up n x) (wutf8 encode str (w, h))"
proof -
  have "wutf8 encode str (up n x (w, h)) =
      wbytes (TypedArray (sh n (length h))) (up n x (w, h @ [encode str]))"
    using assms(2) by (simp add: up_def wutf8_def ins_append sh_length)
  also have "\<dots> = map_prod id (up n x) (wbytes (TypedArray (length h)) (w, h @ [encode str]))"
    using assms(2) by (intro wbytes_TypedArray_up wvalid_append[OF assms(1)]) simp_all
  finally show ?thesis by (simp add: wutf8_def)
qed

lemma write_op_up:
  assumes "wvalid s" "n \<le> length (snd s)" "source_in (snd s) wo"
  shows "write_op encode (sh_wop n wo) (up n x s) = map_prod id (up n x) (write_op encode wo s)"
proof -
  obtain w h where s: "s = (w, h)" by (cases s)
  have v: "wvalid (w, h)" and l: "n \<le> length h" using assms s by simp_all
  note fx = wfixed_up[OF v l]
  show ?thesis
  proof (cases wo)
    case (Wbytes arg)
    then show ?thesis
      using assms(3) wbytes_ArrayBuffer_up[OF v l] wbytes_TypedArray_up[OF v l]
      by (cases arg) (simp_all add: s source_in_def)
  next
    case (Wutf8 str)
    then show ?thesis using wutf8_up[OF v l] by (simp add: s)
  next
    case (Wuv m)
    then show ?thesis using wuv_up[OF assms(1,2)] by (simp add: s)
  next
    case (Wiv m)
    then show ?thesis using wuv_up[OF assms(1,2)] by (simp add: s wiv_def)
  qed (simp_all add: s wi8_def wi16_def wi32_def wi64_def wu8_def wu16_def wu32_def wu64_def
        wf32_def wf64_def wbool_def wchar_def setInt8_def setInt16_def setInt32_def setUint8_def
        setUint16_def setUint32_def setFloat32_def setFloat64_def fx dv_store_up)
qed

subsection \<open>Extraction\<close>

lemma wgetBuffer_eq: "wgetBuffer (w, h) = (length h, h @ [take (wpos w) (h ! wdv w)])"
  by (simp add: wgetBuffer_def ab_slice_def clamp_index_def byteLength_def Let_def min_def)

lemma written_eq: "written (w, h) = take (wpos w) (h ! wdv w)"
  by (simp add: written_def wgetBuffer_eq)

lemma written_up: "wdv w < length h \<Longrightarrow> written (up n x (w, h)) = written (w, h)"
  by (simp add: up_def written_eq ins_nth)

lemma sh_wop_id: "source_in h wo \<Longrightarrow> sh_wop (length h) wo = wo"
  by (cases "(length h, wo)" rule: sh_wop.cases) (auto simp: source_in_def sh_def)

lemma up_end: "wdv w < length h \<Longrightarrow> up (length h) x (w, h) = (w, h @ [x])"
  by (simp add: up_def sh_def ins_def)

lemma write_after_getBuffer:
  assumes "wvalid (w, h)" "source_in h wo"
  shows "write_op encode wo (w, snd (wgetBuffer (w, h))) =
     map_prod id (up (length h) (take (wpos w) (h ! wdv w))) (write_op encode wo (w, h))"
proof -
  have v: "wdv w < length h" using assms(1) by (simp add: wvalid_def)
  show ?thesis
    using write_op_up[of "(w, h)" "length h" wo encode "take (wpos w) (h ! wdv w)"] assms
    by (simp add: wgetBuffer_eq up_end[OF v] sh_wop_id)
qed

text \<open>
  C9. For every state of the writer (its buffer in the store, its cursor within the
  buffer; the states that the constructor and the operations produce, lemmas
  \<open>SerialWriter_new_valid\<close> and \<open>write_ops_valid\<close>): \<^verbatim>\<open>getBuffer\<close> adds one buffer to
  the store, at an address no buffer had, holding the bytes \<open>[0, pos)\<close> of the writer's
  buffer, and changes nothing else; the buffer returned has length pos and is not
  the writer's buffer; the state is still one of the writer, a second call returns the
  same bytes, and every operation made afterwards on a source buffer of the store raises
  what it would have raised, moves the cursor where it would have, and leaves the same
  bytes to extract.
\<close>

theorem writer_getBuffer_copy:
  assumes "wvalid (w, h)"
  shows "wgetBuffer (w, h) = (length h, h @ [take (wpos w) (h ! wdv w)]) \<and>
    length (written (w, h)) = wpos w \<and>
    fst (wgetBuffer (w, h)) \<noteq> wdv w \<and>
    wvalid (w, snd (wgetBuffer (w, h))) \<and>
    written (w, snd (wgetBuffer (w, h))) = written (w, h) \<and>
    (source_in h wo \<longrightarrow>
       fst (write_op encode wo (w, snd (wgetBuffer (w, h)))) = fst (write_op encode wo (w, h)) \<and>
       wpos (fst (snd (write_op encode wo (w, snd (wgetBuffer (w, h)))))) =
         wpos (fst (snd (write_op encode wo (w, h)))) \<and>
       written (snd (write_op encode wo (w, snd (wgetBuffer (w, h))))) =
         written (snd (write_op encode wo (w, h))))"
proof -
  have v: "wdv w < length h" and p: "wpos w \<le> length (h ! wdv w)"
    using assms by (simp_all add: wvalid_def byteLength_def)
  have 1: "wgetBuffer (w, h) = (length h, h @ [take (wpos w) (h ! wdv w)])"
    by (rule wgetBuffer_eq)
  have 2: "length (written (w, h)) = wpos w"
    using p by (simp add: written_eq)
  have 3: "fst (wgetBuffer (w, h)) \<noteq> wdv w"
    using v by (simp add: 1)
  have 4: "wvalid (w, snd (wgetBuffer (w, h)))"
    using wvalid_append[OF assms] by (simp add: 1)
  have 5: "written (w, snd (wgetBuffer (w, h))) = written (w, h)"
    using v by (simp add: 1 written_eq nth_append)
  have 6: "source_in h wo \<longrightarrow>
       fst (write_op encode wo (w, snd (wgetBuffer (w, h)))) = fst (write_op encode wo (w, h)) \<and>
       wpos (fst (snd (write_op encode wo (w, snd (wgetBuffer (w, h)))))) =
         wpos (fst (snd (write_op encode wo (w, h)))) \<and>
       written (snd (write_op encode wo (w, snd (wgetBuffer (w, h))))) =
         written (snd (write_op encode wo (w, h)))"
  proof
    assume s: "source_in h wo"
    obtain e w' h' where r: "write_op encode wo (w, h) = (e, w', h')"
      by (cases "write_op encode wo (w, h)") auto
    have "wvalid (w', h')"
      using write_op_valid[of "(w, h)" wo encode] assms s r by simp
    then have v': "wdv w' < length h'" by (simp add: wvalid_def)
    show "fst (write_op encode wo (w, snd (wgetBuffer (w, h)))) = fst (write_op encode wo (w, h)) \<and>
       wpos (fst (snd (write_op encode wo (w, snd (wgetBuffer (w, h)))))) =
         wpos (fst (snd (write_op encode wo (w, h)))) \<and>
       written (snd (write_op encode wo (w, snd (wgetBuffer (w, h))))) =
         written (snd (write_op encode wo (w, h)))"
      unfolding write_after_getBuffer[OF assms s] r
      using written_up[OF v'] by (simp add: up_def)
  qed
  show ?thesis using 1 2 3 4 5 6 by (intro conjI)
qed

theorem writer_getBuffer_copy_witness:
  "wgetBuffer (\<lparr>wdv = 1, wpos = 2\<rparr>, [[0, 0, 0, 0, 0, 0, 0, 0], [0x82, 0x2C, 0, 0, 0, 0, 0, 0]]) =
     (2, [[0, 0, 0, 0, 0, 0, 0, 0], [0x82, 0x2C, 0, 0, 0, 0, 0, 0], [0x82, 0x2C]]) \<and>
   written (snd (wu8 7 (\<lparr>wdv = 1, wpos = 2\<rparr>,
      [[0, 0, 0, 0, 0, 0, 0, 0], [0x82, 0x2C, 0, 0, 0, 0, 0, 0], [0x82, 0x2C]]))) =
   written (snd (wu8 7 (\<lparr>wdv = 1, wpos = 2\<rparr>,
      [[0, 0, 0, 0, 0, 0, 0, 0], [0x82, 0x2C, 0, 0, 0, 0, 0, 0]])))"
proof -
  define w0 where "w0 = \<lparr>wdv = 1, wpos = 2\<rparr>"
  define h0 :: heap where "h0 = [[0, 0, 0, 0, 0, 0, 0, 0], [0x82, 0x2C, 0, 0, 0, 0, 0, 0]]"
  have v: "wvalid (w0, h0)"
    by (simp add: wvalid_def byteLength_def w0_def h0_def)
  have s: "source_in h0 (Wu8 7)"
    by (simp add: source_in_def)
  note t = writer_getBuffer_copy[OF v, of "Wu8 7" "map of_nat"]
  from t have a: "wgetBuffer (w0, h0) = (length h0, h0 @ [take (wpos w0) (h0 ! wdv w0)])"
    by blast
  from t s have b: "written (snd (write_op (map of_nat) (Wu8 7) (w0, snd (wgetBuffer (w0, h0))))) =
      written (snd (write_op (map of_nat) (Wu8 7) (w0, h0)))"
    by blast
  have a': "wgetBuffer (w0, h0) =
      (2, [[0, 0, 0, 0, 0, 0, 0, 0], [0x82, 0x2C, 0, 0, 0, 0, 0, 0], [0x82, 0x2C]])"
    unfolding a by (simp add: w0_def h0_def)
  have b': "written (snd (wu8 7 (w0,
        [[0, 0, 0, 0, 0, 0, 0, 0], [0x82, 0x2C, 0, 0, 0, 0, 0, 0], [0x82, 0x2C]]))) =
      written (snd (wu8 7 (w0, h0)))"
    using b unfolding a' by simp
  show ?thesis
    using a' b' unfolding w0_def h0_def by (rule conjI)
qed

subsection \<open>The byte count of \<^verbatim>\<open>wuv\<close>\<close>

text \<open>
  The number of rounds of the loop of \<^verbatim>\<open>wuv\<close> is the source's formula over the reals.
\<close>

lemma ceil_div128_le: "((n :: nat) + 127) div 128 \<le> x \<longleftrightarrow> n \<le> 128 * x"
proof -
  have "(n + 127) div 128 \<le> x \<longleftrightarrow> (n + 127) div 128 < Suc x"
    by (simp only: less_Suc_eq_le)
  also have "\<dots> \<longleftrightarrow> n + 127 < Suc x * 128"
    by (rule div_less_iff_less_mult) simp
  also have "\<dots> \<longleftrightarrow> n \<le> 128 * x"
    by auto
  finally show ?thesis .
qed

lemma ceil_log128_le_iff: "0 < n \<Longrightarrow> ceil_log128 n \<le> k \<longleftrightarrow> n \<le> 128 ^ k"
proof (induction n arbitrary: k rule: ceil_log128.induct)
  case (1 n)
  show ?case
  proof (cases "n \<le> 1")
    case True
    have "(1 :: nat) \<le> 128 ^ k" by simp
    with True have "n \<le> 128 ^ k" by linarith
    then show ?thesis using True by (simp add: ceil_log128.simps[of n])
  next
    case False
    define m where "m = (n + 127) div 128"
    have m: "0 < m" using False by (simp add: m_def)
    have c: "ceil_log128 n = Suc (ceil_log128 m)"
      using False by (simp add: ceil_log128.simps[of n] m_def)
    show ?thesis
    proof (cases k)
      case 0
      then show ?thesis using False c by simp
    next
      case (Suc j)
      have "ceil_log128 m \<le> j \<longleftrightarrow> m \<le> 128 ^ j"
        using "1.IH"[OF False, of j] m by (simp add: m_def)
      also have "\<dots> \<longleftrightarrow> n \<le> 128 * 128 ^ j"
        unfolding m_def by (rule ceil_div128_le)
      finally show ?thesis using c Suc by simp
    qed
  qed
qed


lemma ceil_log128_log:
  assumes "0 < n"
  shows "int (ceil_log128 n) = \<lceil>log 2 (real n) / 7\<rceil>"
proof -
  have pw: "real n \<le> 128 ^ k \<longleftrightarrow> log 2 (real n) / 7 \<le> real k" for k
  proof -
    have "(128 :: real) ^ k = 2 powr (7 * real k)"
    proof -
      have "(128 :: real) ^ k = (2 ^ 7) ^ k" by simp
      also have "\<dots> = 2 ^ (7 * k)" by (simp only: power_mult)
      also have "\<dots> = 2 powr real (7 * k)" by (simp only: powr_realpow[of 2, simplified])
      finally show ?thesis by simp
    qed
    then have "real n \<le> 128 ^ k \<longleftrightarrow> real n \<le> 2 powr (7 * real k)" by simp
    also have "\<dots> \<longleftrightarrow> log 2 (real n) \<le> 7 * real k"
      using assms by (simp add: le_powr_iff)
    finally show ?thesis by (simp add: mult.commute)
  qed
  have le: "ceil_log128 n \<le> k \<longleftrightarrow> log 2 (real n) / 7 \<le> real k" for k
  proof -
    have "ceil_log128 n \<le> k \<longleftrightarrow> real n \<le> real ((128 :: nat) ^ k)"
      using ceil_log128_le_iff[OF assms, of k] by (simp only: of_nat_le_iff)
    then show ?thesis using pw[of k] by simp
  qed
  have up: "log 2 (real n) / 7 \<le> real (ceil_log128 n)"
    using le[of "ceil_log128 n"] by simp
  have lo: "real (ceil_log128 n) - 1 < log 2 (real n) / 7"
  proof (cases "ceil_log128 n")
    case 0
    have "0 \<le> log 2 (real n)" using assms by simp
    then show ?thesis using 0 by simp
  next
    case (Suc j)
    then have "\<not> ceil_log128 n \<le> j" by simp
    then have "\<not> log 2 (real n) / 7 \<le> real j" using le[of j] by simp
    then show ?thesis using Suc by simp
  qed
  have "\<lceil>log 2 (real n) / 7\<rceil> = int (ceil_log128 n)"
    using up lo by (simp add: ceiling_eq_iff)
  then show ?thesis by simp
qed

lemma wuv_byteLength_log:
  assumes "0 < n"
  shows "int (wuv_byteLength n) = \<lceil>log 2 (real_of_int n) / 7\<rceil>"
proof -
  have 1: "0 < nat n" using assms by simp
  have 2: "real (nat n) = real_of_int n" using assms by simp
  have 3: "wuv_byteLength n = ceil_log128 (nat n)"
    using assms by (simp add: wuv_byteLength_def)
  show ?thesis
    using ceil_log128_log[OF 1] unfolding 2 3 .
qed

subsection \<open>Writing single bytes\<close>

text \<open>
  What \<^verbatim>\<open>wu8\<close> does, by the place of the cursor in the writer's buffer. With room
  for the byte and one more, the byte is stored in place. When the byte is the last that
  fits, \<^verbatim>\<open>allocMin\<close> allocates the buffer of twice the size and copies the old one,
  and the byte is stored into the old buffer afterwards: the bytes to extract are those
  of the old buffer as it was. With the cursor at the end of the buffer the setter,
  called on the old buffer, raises RangeError. Writing bytes one at a time into a buffer
  with room for one raises nothing, and the extracted buffer has one byte for each.
\<close>

lemma dv_store_byte:
  "i < length (h ! a) \<Longrightarrow> dv_store h a i [b] = Inr (h[a := (h ! a)[i := b]])"
  by (simp add: dv_store_def byteLength_def upd_conv_take_nth_drop)

lemma wu8_in_place:
  assumes "wdv w < length h" "wpos w + 1 < length (h ! wdv w)"
  shows "wu8 n (w, h) =
     (None, w\<lparr>wpos := wpos w + 1\<rparr>, h[wdv w := (h ! wdv w)[wpos w := word_of_int n]])"
  using assms
  by (simp add: wu8_def wfixed_def wdelayedMove_eq setUint8_def dv_store_byte)

lemma wu8_at_growth:
  assumes "wdv w < length h" "wpos w + 1 = length (h ! wdv w)"
  shows "wu8 n (w, h) =
     (None, w\<lparr>wpos := wpos w + 1, wdv := length h\<rparr>,
      (h @ [h ! wdv w @ replicate (length (h ! wdv w)) 0])
        [wdv w := (h ! wdv w)[wpos w := word_of_int n]])"
  using assms
  by (simp add: wu8_def wfixed_def wdelayedMove_eq setUint8_def dv_store_byte nth_append)

lemma wu8_growth_loses_byte:
  assumes "wdv w < length h" "wpos w + 1 = length (h ! wdv w)"
  shows "written (snd (wu8 n (w, h))) = h ! wdv w"
  using assms
  by (simp add: wu8_at_growth written_eq nth_append)

lemma wu8_beyond:
  assumes "wdv w < length h" "length (h ! wdv w) \<le> wpos w"
  shows "fst (wu8 n (w, h)) = Some RangeError"
  using assms
  by (simp add: wu8_def wfixed_def wdelayedMove_eq setUint8_def dv_store_def byteLength_def
      nth_append Let_def)


lemma wu8_each_length:
  assumes "wdv w < length h" "wpos w < length (h ! wdv w)"
  shows "fst (wu8_each ns (w, h)) = None \<and>
         length (written (snd (wu8_each ns (w, h)))) = wpos w + length ns"
  using assms
proof (induction ns arbitrary: w h)
  case Nil
  then show ?case by (simp add: written_eq)
next
  case (Cons n ns)
  show ?case
  proof (cases "wpos w + 1 < length (h ! wdv w)")
    case True
    have "fst (wu8_each ns (w\<lparr>wpos := wpos w + 1\<rparr>, h[wdv w := (h ! wdv w)[wpos w := word_of_int n]])) = None \<and>
        length (written (snd (wu8_each ns (w\<lparr>wpos := wpos w + 1\<rparr>,
           h[wdv w := (h ! wdv w)[wpos w := word_of_int n]])))) = wpos w + 1 + length ns"
      using Cons.IH[of "w\<lparr>wpos := wpos w + 1\<rparr>" "h[wdv w := (h ! wdv w)[wpos w := word_of_int n]]"]
        Cons.prems True by simp
    then show ?thesis
      using wu8_in_place[OF Cons.prems(1) True, of n] by simp
  next
    case False
    then have eq: "wpos w + 1 = length (h ! wdv w)" using Cons.prems(2) by simp
    let ?w = "w\<lparr>wpos := wpos w + 1, wdv := length h\<rparr>"
    let ?h = "(h @ [h ! wdv w @ replicate (length (h ! wdv w)) 0])
        [wdv w := (h ! wdv w)[wpos w := word_of_int n]]"
    have "fst (wu8_each ns (?w, ?h)) = None \<and>
        length (written (snd (wu8_each ns (?w, ?h)))) = wpos ?w + length ns"
      using Cons.prems eq by (intro Cons.IH) (auto simp: nth_append)
    then show ?thesis
      using wu8_at_growth[OF Cons.prems(1) eq, of n] by simp
  qed
qed

subsection \<open>The varint writers at sample values\<close>

text \<open>
  With a new writer over the empty store: 127, 16383 and 2097151 are written in one, two
  and three bytes and read back; 16384 and 2097152, powers of 128, are written one byte
  short and read back as 0; \<open>2 ^ 32 - 1\<close> is written in five bytes and read back as
  \<open>- 1\<close>, since \<^verbatim>\<open>ruv\<close> returns an Int32. \<^verbatim>\<open>wiv(-5)\<close> writes the byte 0x0B, which
  \<^verbatim>\<open>riv\<close> reads as \<open>- 5\<close>; for \<open>2 ^ 31 - 1\<close> the shifted value is a negative Int32, whose
  \<^verbatim>\<open>Math.log2\<close> is NaN, and for \<open>- 2 ^ 31\<close> it is 1: nothing is written for either.
\<close>

lemma wuv_samples_read_back:
  "written (snd (wuv 127 (SerialWriter_new None []))) = [0x7F]"
  "ruv [[0x7F]] (SerialReader_new 0 None) = (Inr 127, \<lparr>rdv = 0, rpos = 1\<rparr>)"
  "written (snd (wuv 16383 (SerialWriter_new None []))) = [0xFF, 0x7F]"
  "ruv [[0xFF, 0x7F]] (SerialReader_new 0 None) = (Inr 16383, \<lparr>rdv = 0, rpos = 2\<rparr>)"
  "written (snd (wuv 2097151 (SerialWriter_new None []))) = [0xFF, 0xFF, 0x7F]"
  "ruv [[0xFF, 0xFF, 0x7F]] (SerialReader_new 0 None) = (Inr 2097151, \<lparr>rdv = 0, rpos = 3\<rparr>)"
  by (simp_all add: w_defs dv_defs r_defs Let_def)

lemma wuv_powers_of_128_read_zero:
  "written (snd (wuv 16384 (SerialWriter_new None []))) = [0x80, 0x00]"
  "ruv [[0x80, 0x00]] (SerialReader_new 0 None) = (Inr 0, \<lparr>rdv = 0, rpos = 2\<rparr>)"
  "written (snd (wuv 2097152 (SerialWriter_new None []))) = [0x80, 0x80, 0x00]"
  "ruv [[0x80, 0x80, 0x00]] (SerialReader_new 0 None) = (Inr 0, \<lparr>rdv = 0, rpos = 3\<rparr>)"
  by (simp_all add: w_defs dv_defs r_defs Let_def)

lemma wuv_max_reads_negative:
  "written (snd (wuv 4294967295 (SerialWriter_new None []))) = [0x8F, 0xFF, 0xFF, 0xFF, 0x7F]"
  "ruv [[0x8F, 0xFF, 0xFF, 0xFF, 0x7F]] (SerialReader_new 0 None) = (Inr (- 1), \<lparr>rdv = 0, rpos = 5\<rparr>)"
  by (simp_all add: w_defs dv_defs r_defs Let_def)

lemma wiv_extremes:
  "written (snd (wiv (- 5) (SerialWriter_new None []))) = [0x0B]"
  "riv [[0x0B]] (SerialReader_new 0 None) = (Inr (- 5), \<lparr>rdv = 0, rpos = 1\<rparr>)"
  "written (snd (wiv 2147483647 (SerialWriter_new None []))) = []"
  "written (snd (wiv (- 2147483648) (SerialWriter_new None []))) = []"
  by (simp_all add: wiv_def riv_def w_defs dv_defs r_defs Let_def)

end
